theory Spec2Isabelle
  imports Complex_Main "HOL-Library.Sublist"
begin

section \<open>Strings and buffers\<close>

text \<open>
  A Buffer is a list of bytes and a JavaScript string a list of characters; both are
  \<^typ>\<open>string\<close> here, and \<open>line.toString('utf8')\<close> is the identity (exact for the
  ASCII text the controller sends).
\<close>

definition CR :: char where
  "CR = CHR 0x0D"

definition LF :: char where
  "LF = CHR 0x0A"

text \<open>\<open>const DELIMETER = Buffer.from('\r\n')\<close>\<close>

definition DELIMETER :: string where
  "DELIMETER = [CR, LF]"

text \<open>
  \<open>buffer.indexOf(value)\<close>: the index of the first occurrence of \<open>value\<close>, \<open>None\<close>
  where JavaScript returns \<open>-1\<close>.
\<close>

fun indexOf :: "string \<Rightarrow> string \<Rightarrow> nat option" where
  "indexOf [] pat = (if pat = [] then Some 0 else None)"
| "indexOf (c # cs) pat =
     (if prefix pat (c # cs) then Some 0 else map_option Suc (indexOf cs pat))"

section \<open>Errors\<close>

text \<open>
  \<open>class GrblError extends Error\<close>, \<open>class ProtocolError extends GrblError\<close> with its
  \<open>input\<close>, \<open>class CommandError extends GrblError\<close> with its three fields. A value that
  JavaScript leaves \<open>undefined\<close> is \<open>None\<close>. \<open>TypeError\<close> is the exception of the
  runtime itself.
\<close>

record GrblError =
  message :: string

record ProtocolError = GrblError +
  input :: "string option"

record CommandError = GrblError +
  errorCode :: string
  errorMessage :: "string option"
  errorDescription :: "string option"

datatype error =
    Protocol ProtocolError
  | Command CommandError
  | TypeError string

text \<open>
  A call that mutates the object and may throw: the object as the call leaves it, and
  the exception if one was thrown. A thrown exception does not undo the mutations made
  before it.
\<close>

datatype ('a, 's) completion = Return 'a 's | Throw error 's

section \<open>Line framer\<close>

text \<open>
  The \<open>while\<close> loop of \<open>_write\<close> on the local \<open>buffer\<close>. \<open>this._parse\<close> is a field
  holding a callback, so the interpreter is the parameter \<open>parse\<close>; \<open>this\<close> is whatever
  the interpreter mutates. An exception thrown by the interpreter leaves the loop.
\<close>

lemma indexOf_bound:
  "indexOf buffer pat = Some position \<Longrightarrow> position + length pat \<le> length buffer"
proof (induction buffer arbitrary: position)
  case Nil
  then show ?case by (simp split: if_splits)
next
  case (Cons c cs)
  show ?case
  proof (cases "prefix pat (c # cs)")
    case True
    with Cons.prems have "position = 0" by simp
    with True show ?thesis by (auto dest: prefix_length_le)
  next
    case False
    with Cons.prems obtain q where "indexOf cs pat = Some q" "position = Suc q"
      by auto
    with Cons.IH show ?thesis by simp
  qed
qed

function write_loop ::
  "(string \<Rightarrow> 's \<Rightarrow> (unit, 's) completion) \<Rightarrow> string \<Rightarrow> 's \<Rightarrow> (string, 's) completion"
where
  "write_loop parse buffer this =
     (case indexOf buffer DELIMETER of
        None \<Rightarrow> Return buffer this
      | Some position \<Rightarrow>
          (let line = take position buffer
           in case (if line \<noteq> [] then parse line this else Return () this) of
                Throw e this' \<Rightarrow> Throw e this'
              | Return _ this' \<Rightarrow>
                  write_loop parse (drop (position + length DELIMETER) buffer) this'))"
  by pat_completeness auto
termination
proof (relation "measure (\<lambda>(parse, buffer, this). length buffer)")
  show "wf (measure (\<lambda>(parse :: string \<Rightarrow> 's \<Rightarrow> (unit, 's) completion, buffer, this :: 's).
    length buffer))"
    by simp
next
  fix parse :: "string \<Rightarrow> 's \<Rightarrow> (unit, 's) completion"
  fix buffer :: string and this this' :: 's and position :: nat and line :: string and u :: unit
  assume "indexOf buffer DELIMETER = Some position"
  then have "position + length DELIMETER \<le> length buffer"
    by (rule indexOf_bound)
  then show "((parse, drop (position + length DELIMETER) buffer, this'), (parse, buffer, this))
    \<in> measure (\<lambda>(parse, buffer, this). length buffer)"
    by (simp add: DELIMETER_def)
qed

declare write_loop.simps [simp del]

text \<open>
  \<open>_write (data, encoding, cb)\<close> on the pair of \<open>this._buffer\<close> and the rest of the
  object. When the interpreter throws, the assignment \<open>this._buffer = buffer\<close> is not
  reached and \<open>_buffer\<close> keeps its old value.
\<close>

definition write_chunk ::
  "(string \<Rightarrow> 's \<Rightarrow> (unit, 's) completion) \<Rightarrow> string \<Rightarrow> string \<times> 's
    \<Rightarrow> (unit, string \<times> 's) completion"
where
  "write_chunk parse data = (\<lambda>(buffer0, this).
     (case write_loop parse (buffer0 @ data) this of
        Throw e this' \<Rightarrow> Throw e (buffer0, this')
      | Return buffer this' \<Rightarrow> Return () (buffer, this')))"

text \<open>
  Chunks written one after the other; the exception of a \<open>_write\<close> reaches the writer,
  and no later chunk is written.
\<close>

fun feed ::
  "(string \<Rightarrow> 's \<Rightarrow> (unit, 's) completion) \<Rightarrow> string list \<Rightarrow> string \<times> 's
    \<Rightarrow> (unit, string \<times> 's) completion"
where
  "feed parse [] stream = Return () stream"
| "feed parse (data # chunks) stream =
     (case write_chunk parse data stream of
        Throw e stream' \<Rightarrow> Throw e stream'
      | Return _ stream' \<Rightarrow> feed parse chunks stream')"

text \<open>
  What a run of chunks leaves behind: the interpreter's side (its state, and the exception
  if one was thrown), and the buffered remainder when no exception was thrown.
\<close>

fun interpreter_state :: "(unit, string \<times> 's) completion \<Rightarrow> error option \<times> 's" where
  "interpreter_state (Return _ (_, this)) = (None, this)"
| "interpreter_state (Throw e (_, this)) = (Some e, this)"

fun buffered :: "(unit, string \<times> 's) completion \<Rightarrow> string option" where
  "buffered (Return _ (buffer, _)) = Some buffer"
| "buffered (Throw e _) = None"

text \<open>An interpreter that only records the lines it is called with, in order.\<close>

definition record_line :: "string \<Rightarrow> string list \<Rightarrow> (unit, string list) completion" where
  "record_line line seen = Return () (seen @ [line])"

text \<open>The lines that reach the interpreter when the chunks are written to a new stream.\<close>

definition dispatched :: "string list \<Rightarrow> string list" where
  "dispatched chunks = snd (interpreter_state (feed record_line chunks ([], [])))"


section \<open>Catalogs\<close>

text \<open>
  \<open>ERROR_CODES\<close> and \<open>SETTING_CODES\<close> are read from the CSV files under \<open>codes/\<close> when
  the module is loaded: with \<open>columns: true\<close> each row is an object keyed by the header's
  column names. The files are data, so both catalogs are parameters here. \<open>row[column]\<close>
  of a missing column, and of the object \<open>{}\<close>, is \<open>undefined\<close>.
\<close>

type_synonym row = "string \<rightharpoonup> string"

type_synonym catalog = "row list"

text \<open>\<open>catalog.find(row => row[column] === code) || {}\<close>\<close>

definition find_row :: "catalog \<Rightarrow> string \<Rightarrow> string \<Rightarrow> row" where
  "find_row rows column code =
     (case find (\<lambda>row. row column = Some code) rows of
        None \<Rightarrow> Map.empty
      | Some row \<Rightarrow> row)"

text \<open>A template literal writes an undefined value as the text \<open>undefined\<close>.\<close>

definition interpolate :: "string option \<Rightarrow> string" where
  "interpolate v = (case v of None \<Rightarrow> ''undefined'' | Some s \<Rightarrow> s)"

definition new_ProtocolError :: "string \<Rightarrow> string option \<Rightarrow> ProtocolError" where
  "new_ProtocolError msg inp = \<lparr>message = msg, input = inp\<rparr>"

definition new_CommandError :: "string \<Rightarrow> string option \<Rightarrow> string option \<Rightarrow> CommandError" where
  "new_CommandError code msg description =
     \<lparr>message = ''['' @ interpolate msg @ ''] '' @ interpolate description
          @ '' (code: '' @ code @ '')'',
      errorCode = code,
      errorMessage = msg,
      errorDescription = description\<rparr>"

definition fromCode :: "catalog \<Rightarrow> string \<Rightarrow> CommandError" where
  "fromCode ERROR_CODES code =
     (let row = find_row ERROR_CODES ''Error Code'' code
      in new_CommandError code (row ''Error Message'') (row ''Error Description''))"

section \<open>Grammars\<close>

definition digit :: "char \<Rightarrow> bool" where
  "digit c \<longleftrightarrow> c \<in> set ''0123456789''"

definition letter :: "char \<Rightarrow> bool" where
  "letter c \<longleftrightarrow> c \<in> set ''abcdefghijklmnopqrstuvwxyzABCDEFGHIJKLMNOPQRSTUVWXYZ''"

definition apostrophe :: char where
  "apostrophe = CHR 0x27"

text \<open>The banner's fixed tail, \<open> ['$' for help]\<close>.\<close>

definition for_help :: string where
  "for_help = '' ['' @ [apostrophe] @ ''$'' @ [apostrophe] @ '' for help]''"

text \<open>
  \<open>data.match(/^Grbl (\d+\.\d+[a-zA-Z]) \['\$' for help\]$/)\<close>: the captured group, or
  \<open>None\<close> for \<open>null\<close>. Every \<open>\d+\<close> is followed by a character that is not a digit, so
  the greedy run of digits is the only way to match.
\<close>

definition match_version :: "string \<Rightarrow> string option" where
  "match_version data =
     (if \<not> prefix ''Grbl '' data then None
      else let r = drop 5 data;
               major = takeWhile digit r;
               r1 = dropWhile digit r
           in if major = [] then None
              else (case r1 of
                      [] \<Rightarrow> None
                    | dot # r2 \<Rightarrow>
                        if dot \<noteq> CHR ''.'' then None
                        else let minor = takeWhile digit r2;
                                 r3 = dropWhile digit r2
                             in if minor = [] then None
                                else (case r3 of
                                        [] \<Rightarrow> None
                                      | c # r4 \<Rightarrow>
                                          if letter c \<and> r4 = for_help
                                          then Some (major @ ''.'' @ minor @ [c])
                                          else None)))"

text \<open>
  The banner as the specification words it: \<open>Grbl <digits>.<digits><letter> ['$' for help]\<close>.
\<close>

definition is_version_banner :: "string \<Rightarrow> bool" where
  "is_version_banner data \<longleftrightarrow>
     (\<exists>major minor c.
        major \<noteq> [] \<and> minor \<noteq> [] \<and> list_all digit major \<and> list_all digit minor \<and> letter c \<and>
        data = ''Grbl '' @ major @ ''.'' @ minor @ [c] @ for_help)"

text \<open>
  \<open>line.match(/^\$([^=]+)=([^ ]*)/)\<close>: the two captured groups. \<open>[^=]+\<close> cannot pass an
  \<open>=\<close>, so the first group ends at the first \<open>=\<close> of the line; the second runs to the
  first space or to the end.
\<close>

definition match_setting :: "string \<Rightarrow> (string \<times> string) option" where
  "match_setting line =
     (case line of
        [] \<Rightarrow> None
      | dollar # r \<Rightarrow>
          if dollar \<noteq> CHR ''$'' then None
          else let code = takeWhile (\<lambda>c. c \<noteq> CHR ''='') r;
                   r1 = dropWhile (\<lambda>c. c \<noteq> CHR ''='') r
               in if code = [] \<or> r1 = [] then None
                  else Some (code, takeWhile (\<lambda>c. c \<noteq> CHR '' '') (tl r1)))"


section \<open>The stream object\<close>

text \<open>
  The promises whose \<open>resolve\<close> function is handed to the lock: the one of the
  constructor (\<open>future\<close>) and the one of each call of \<open>command\<close>, numbered in call order.
\<close>

datatype acquirer = Boot | Cmd nat

text \<open>
  Callbacks that run later, after the synchronous code that scheduled them: \<open>Call\<close> is
  the tick the lock queues when it hands itself over, \<open>Then data\<close> the callback
  \<open>onheader\<close> gives to \<open>future.then\<close>, \<open>Resume n\<close> the body of the \<open>n\<close>-th call of
  \<open>command\<close> after \<open>await this._lock()\<close>, and \<open>Finish k\<close> its body after
  \<open>await this._ok()\<close>, \<open>k\<close> being the promise that \<open>_ok\<close> returned.
\<close>

datatype job = Call | Then string | Resume nat | Finish nat

datatype interpreter = Onversion | Onheader | Onmessage

datatype event = Version string | Issued string | Message string

text \<open>
  One call of \<open>command (cmd)\<close>: its argument, whether its \<open>await this._lock()\<close> has been
  resolved, and what the call returned (\<open>Inr\<close>) or threw (\<open>Inl\<close>) once it is over.
\<close>

record activation =
  cmd :: string
  granted :: bool
  returned :: "(error + string list) option"

text \<open>
  One call of \<open>_ok ()\<close>: the array \<open>lines\<close> of its closure, the state of the promise it
  returned (\<open>Inr\<close> resolved, \<open>Inl\<close> rejected), and the call of \<open>command\<close> that awaits it.
\<close>

record ok_promise =
  lines :: "string list"
  outcome :: "(error + string list) option"
  awaited_by :: nat

text \<open>
  The object and what it closes over. \<open>lock_used\<close> and \<open>lock_queue\<close> are the two variables
  of the lock, \<open>future_resolved\<close> and \<open>future_then\<close> the promise \<open>future\<close> and the callbacks
  waiting on it. \<open>pushed\<close> lists the arguments of \<open>this.push\<close> and \<open>emitted\<close> those of
  \<open>this.emit\<close>, in order; \<open>listeners\<close> are the \<open>message\<close> listeners that \<open>_ok\<close> installed.
  \<open>calls\<close> and \<open>oks\<close> are stores indexed by allocation order. \<open>uncaught\<close> is an exception
  that no handler caught.
\<close>

record GrblStream =
  lock_used :: "acquirer option"
  lock_queue :: "acquirer list"
  future_resolved :: bool
  future_then :: "string list"
  this_parse :: interpreter
  this_buffer :: string
  destroyed :: "error option"
  pushed :: "string list"
  emitted :: "event list"
  listeners :: "nat list"
  calls :: "nat \<Rightarrow> activation"
  ncalls :: nat
  oks :: "nat \<Rightarrow> ok_promise"
  noks :: nat
  jobs :: "job list"
  uncaught :: "error option"

subsection \<open>The lock\<close>

text \<open>
  \<open>mutexify\<close> is a dependency, not part of the repository. Its lock is modelled as the
  package has it: \<open>acquire (fn)\<close> queues \<open>fn\<close> when the lock is used, and otherwise takes the
  lock for \<open>fn\<close> and queues the tick \<open>call\<close>; \<open>call\<close> runs \<open>used (release)\<close>;
  \<open>release ()\<close> clears \<open>used\<close> and acquires for the head of the queue, if any. There is a
  single \<open>release\<close> function, with no memory of who holds the lock. \<open>mutexify/promise\<close>
  wraps it: \<open>lock ()\<close> is \<open>new Promise(acquire)\<close>, so \<open>fn\<close> is the promise's \<open>resolve\<close>.
\<close>

definition acquire :: "acquirer \<Rightarrow> GrblStream \<Rightarrow> GrblStream" where
  "acquire fn st =
     (if lock_used st \<noteq> None then st\<lparr>lock_queue := lock_queue st @ [fn]\<rparr>
      else st\<lparr>lock_used := Some fn, jobs := jobs st @ [Call]\<rparr>)"

definition release :: "GrblStream \<Rightarrow> GrblStream" where
  "release st =
     (let st1 = st\<lparr>lock_used := None\<rparr>
      in case lock_queue st1 of
           [] \<Rightarrow> st1
         | fn # rest \<Rightarrow> acquire fn (st1\<lparr>lock_queue := rest\<rparr>))"

text \<open>
  Resolving a promise queues the callbacks waiting on it; resolving it again does nothing.
\<close>

fun resolve :: "acquirer \<Rightarrow> GrblStream \<Rightarrow> GrblStream" where
  "resolve Boot st =
     (if future_resolved st then st
      else st\<lparr>future_resolved := True, future_then := [],
              jobs := jobs st @ map Then (future_then st)\<rparr>)"
| "resolve (Cmd n) st =
     (if granted (calls st n) then st
      else st\<lparr>calls := (calls st)(n := (calls st n)\<lparr>granted := True\<rparr>),
              jobs := jobs st @ [Resume n]\<rparr>)"

definition call :: "GrblStream \<Rightarrow> (unit, GrblStream) completion" where
  "call st =
     (case lock_used st of
        None \<Rightarrow> Throw (TypeError ''used is not a function'') st
      | Some fn \<Rightarrow> Return () (resolve fn st))"

subsection \<open>Waiting for the response\<close>

text \<open>\<open>resolve\<close> and \<open>reject\<close> of the promise of \<open>_ok\<close>: the first of them settles it.\<close>

definition settle :: "nat \<Rightarrow> error + string list \<Rightarrow> GrblStream \<Rightarrow> GrblStream" where
  "settle k r st =
     (if outcome (oks st k) \<noteq> None then st
      else st\<lparr>oks := (oks st)(k := (oks st k)\<lparr>outcome := Some r\<rparr>),
              jobs := jobs st @ [Finish k]\<rparr>)"

text \<open>The listener \<open>onmessage\<close> that the \<open>k\<close>-th call of \<open>_ok\<close> installs.\<close>

definition ok_onmessage :: "catalog \<Rightarrow> nat \<Rightarrow> string \<Rightarrow> GrblStream \<Rightarrow> GrblStream" where
  "ok_onmessage ERROR_CODES k data st =
     (if data = ''ok'' then
        (let st1 = settle k (Inr (lines (oks st k))) st
         in st1\<lparr>listeners := remove1 k (listeners st1)\<rparr>)
      else if prefix ''error:'' data then
        (let code = drop 6 data
         in settle k (Inl (Command (fromCode ERROR_CODES code))) st)
      else st\<lparr>oks := (oks st)(k := (oks st k)\<lparr>lines := lines (oks st k) @ [data]\<rparr>)\<rparr>)"

text \<open>
  \<open>this.emit('message', data)\<close> calls the listeners that are subscribed when it starts, in
  the order they subscribed.
\<close>

definition emit_message :: "catalog \<Rightarrow> string \<Rightarrow> GrblStream \<Rightarrow> GrblStream" where
  "emit_message ERROR_CODES data st =
     fold (\<lambda>k. ok_onmessage ERROR_CODES k data) (listeners st)
       (st\<lparr>emitted := emitted st @ [Message data]\<rparr>)"

text \<open>\<open>_ok ()\<close>: a new promise and a new listener; the index of the promise is returned.\<close>

definition ok :: "nat \<Rightarrow> GrblStream \<Rightarrow> GrblStream" where
  "ok n st =
     (let k = noks st
      in st\<lparr>oks := (oks st)(k := \<lparr>lines = [], outcome = None, awaited_by = n\<rparr>),
            noks := Suc k,
            listeners := listeners st @ [k]\<rparr>)"

subsection \<open>The three interpreters\<close>

text \<open>The first \<open>destroy\<close> of a stream records its error; a destroyed stream ignores the rest.\<close>

definition destroy :: "error \<Rightarrow> GrblStream \<Rightarrow> GrblStream" where
  "destroy err st = (if destroyed st \<noteq> None then st else st\<lparr>destroyed := Some err\<rparr>)"

definition version_format :: string where
  "version_format = ''Expected version format Grbl <version>'' @ for_help"

text \<open>
  When the line does not match, \<open>match\<close> is \<open>null\<close>: the stream is destroyed, and evaluating
  \<open>match[1]\<close> on the next line throws before anything is emitted.
\<close>

definition onversion :: "string \<Rightarrow> GrblStream \<Rightarrow> (unit, GrblStream) completion" where
  "onversion data st =
     (case match_version data of
        None \<Rightarrow>
          Throw (TypeError ''Cannot read properties of null'')
            (destroy (Protocol (new_ProtocolError version_format (Some data))) st)
      | Some v \<Rightarrow>
          Return () (st\<lparr>emitted := emitted st @ [Version v], this_parse := Onheader\<rparr>))"

text \<open>
  \<open>future.then(...)\<close> runs nothing now: the callback is queued if \<open>future\<close> is resolved,
  and waits for it otherwise.
\<close>

definition onheader :: "string \<Rightarrow> GrblStream \<Rightarrow> GrblStream" where
  "onheader data st =
     (if future_resolved st then st\<lparr>jobs := jobs st @ [Then data]\<rparr>
      else st\<lparr>future_then := future_then st @ [data]\<rparr>)"

definition onmessage :: "catalog \<Rightarrow> string \<Rightarrow> GrblStream \<Rightarrow> GrblStream" where
  "onmessage ERROR_CODES data st = emit_message ERROR_CODES data st"

text \<open>\<open>this._parse(line)\<close>\<close>

definition parse_line :: "catalog \<Rightarrow> string \<Rightarrow> GrblStream \<Rightarrow> (unit, GrblStream) completion" where
  "parse_line ERROR_CODES data st =
     (case this_parse st of
        Onversion \<Rightarrow> onversion data st
      | Onheader \<Rightarrow> Return () (onheader data st)
      | Onmessage \<Rightarrow> Return () (onmessage ERROR_CODES data st))"

text \<open>\<open>_write\<close> of the object: the framer with \<open>this._parse\<close> as its interpreter.\<close>

definition GrblStream_write ::
  "catalog \<Rightarrow> string \<Rightarrow> GrblStream \<Rightarrow> (unit, GrblStream) completion"
where
  "GrblStream_write ERROR_CODES data st =
     (case write_chunk (parse_line ERROR_CODES) data (this_buffer st, st) of
        Throw e (_, st') \<Rightarrow> Throw e st'
      | Return _ (buffer, st') \<Rightarrow> Return () (st'\<lparr>this_buffer := buffer\<rparr>))"

subsection \<open>Commands\<close>

text \<open>
  \<open>new GrblStream()\<close>: \<open>future = lock()\<close> takes the new lock for the constructor.
\<close>

definition new_GrblStream :: GrblStream where
  "new_GrblStream =
     acquire Boot
       \<lparr>lock_used = None, lock_queue = [], future_resolved = False, future_then = [],
        this_parse = Onversion, this_buffer = [], destroyed = None, pushed = [],
        emitted = [], listeners = [],
        calls = (\<lambda>_. \<lparr>cmd = [], granted = False, returned = None\<rparr>), ncalls = 0,
        oks = (\<lambda>_. \<lparr>lines = [], outcome = None, awaited_by = 0\<rparr>), noks = 0,
        jobs = [], uncaught = None\<rparr>"

text \<open>
  A call of \<open>command (cmd)\<close> runs up to its first \<open>await\<close>: \<open>this._lock()\<close> has asked for
  the lock, and the rest of the body waits for the promise.
\<close>

definition command :: "string \<Rightarrow> GrblStream \<Rightarrow> GrblStream" where
  "command text st =
     (let n = ncalls st
      in acquire (Cmd n)
           (st\<lparr>calls := (calls st)(n := \<lparr>cmd = text, granted = False, returned = None\<rparr>),
               ncalls := Suc n\<rparr>))"

text \<open>
  The body between the two \<open>await\<close>s: \<open>this.push(cmd + '\n')\<close>, \<open>this.emit('command', cmd)\<close>
  and the call of \<open>this._ok()\<close>.
\<close>

definition command_resume :: "nat \<Rightarrow> GrblStream \<Rightarrow> GrblStream" where
  "command_resume n st =
     (let text = cmd (calls st n);
          st1 = st\<lparr>pushed := pushed st @ [text @ [LF]]\<rparr>;
          st2 = st1\<lparr>emitted := emitted st1 @ [Issued text]\<rparr>
      in ok n st2)"

text \<open>
  The body after \<open>await this._ok()\<close>: the \<open>finally\<close> block releases the lock, and the call
  returns the lines or throws the error.
\<close>

definition command_finish :: "nat \<Rightarrow> GrblStream \<Rightarrow> GrblStream" where
  "command_finish k st =
     (let n = awaited_by (oks st k);
          st1 = release st
      in st1\<lparr>calls := (calls st1)(n := (calls st1 n)\<lparr>returned := outcome (oks st k)\<rparr>)\<rparr>)"

text \<open>
  The callback of \<open>onheader\<close>: \<open>onmessage(data)\<close>, \<open>this._parse = onmessage\<close>, \<open>release()\<close>.
  Nothing in it throws, so its \<open>catch\<close> never runs.
\<close>

definition header_then :: "catalog \<Rightarrow> string \<Rightarrow> GrblStream \<Rightarrow> GrblStream" where
  "header_then ERROR_CODES data st =
     release ((onmessage ERROR_CODES data st)\<lparr>this_parse := Onmessage\<rparr>)"

fun run_job :: "catalog \<Rightarrow> job \<Rightarrow> GrblStream \<Rightarrow> (unit, GrblStream) completion" where
  "run_job ERROR_CODES Call st = call st"
| "run_job ERROR_CODES (Then data) st = Return () (header_then ERROR_CODES data st)"
| "run_job ERROR_CODES (Resume n) st = Return () (command_resume n st)"
| "run_job ERROR_CODES (Finish k) st = Return () (command_finish k st)"

text \<open>
  The queued callbacks run one at a time, each to its end, until none is left; the model
  keeps them in one queue, in the order they were queued. (The runtime keeps the ticks of
  the lock apart from the promise callbacks and runs waiting ticks first; on the sessions
  evaluated below both orders are the same, and the invariants proved below hold
  callback by callback, whatever the order.)
  An exception that leaves a callback is caught by nobody and ends the run.
\<close>

partial_function (option) drain :: "catalog \<Rightarrow> GrblStream \<Rightarrow> GrblStream option" where
  "drain ERROR_CODES st =
     (case jobs st of
        [] \<Rightarrow> Some st
      | j # js \<Rightarrow>
          (case run_job ERROR_CODES j (st\<lparr>jobs := js\<rparr>) of
             Throw e st' \<Rightarrow> Some (st'\<lparr>uncaught := Some e\<rparr>)
           | Return _ st' \<Rightarrow> drain ERROR_CODES st'))"

declare drain.simps [code]

text \<open>
  What happens to the stream from outside: a call of \<open>command\<close>, a chunk written to it
  (a destroyed stream takes no more, and an exception that leaves \<open>_write\<close> reaches the
  writer, where nobody catches it), and the end of the running synchronous code, when the
  queued callbacks run. After an uncaught exception nothing happens any more.
\<close>

datatype action = Submit string | Chunk string | Idle

definition step :: "catalog \<Rightarrow> action \<Rightarrow> GrblStream \<Rightarrow> GrblStream option" where
  "step ERROR_CODES a st =
     (if uncaught st \<noteq> None then Some st
      else case a of
             Submit text \<Rightarrow> Some (command text st)
           | Chunk data \<Rightarrow>
               if destroyed st \<noteq> None then Some st
               else (case GrblStream_write ERROR_CODES data st of
                       Throw e st' \<Rightarrow> Some (st'\<lparr>uncaught := Some e\<rparr>)
                     | Return _ st' \<Rightarrow> Some st')
           | Idle \<Rightarrow> drain ERROR_CODES st)"

fun run_from :: "catalog \<Rightarrow> action list \<Rightarrow> GrblStream \<Rightarrow> GrblStream option" where
  "run_from ERROR_CODES [] st = Some st"
| "run_from ERROR_CODES (a # as) st =
     (case step ERROR_CODES a st of
        None \<Rightarrow> None
      | Some st' \<Rightarrow> run_from ERROR_CODES as st')"

definition run :: "catalog \<Rightarrow> action list \<Rightarrow> GrblStream option" where
  "run ERROR_CODES as = run_from ERROR_CODES as new_GrblStream"


section \<open>Numbers\<close>

text \<open>
  A JavaScript number is its exact value, or \<open>NaN\<close>. \<open>parseFloat\<close> and \<open>parseInt\<close> are the
  runtime's: leading white space, a sign, then the longest run of digits (with a fraction
  for \<open>parseFloat\<close>); what follows is ignored, and \<open>NaN\<close> is the result when no digit was
  read. The exponent part, the literal \<open>Infinity\<close>, negative zero and the rounding of a
  long decimal to the nearest double are left out; \<open>undefined\<close> reads as \<open>NaN\<close>.
\<close>

datatype number = Num rat | NaN

definition whitespace :: "char \<Rightarrow> bool" where
  "whitespace c \<longleftrightarrow> c \<in> set [CHR 0x09, CHR 0x0A, CHR 0x0B, CHR 0x0C, CHR 0x0D, CHR 0x20]"

definition digit_value :: "char \<Rightarrow> nat" where
  "digit_value c = length (takeWhile (\<lambda>d. d \<noteq> c) ''0123456789'')"

definition decimal :: "string \<Rightarrow> nat" where
  "decimal ds = foldl (\<lambda>n c. 10 * n + digit_value c) 0 ds"

definition signed :: "string \<Rightarrow> bool \<times> string" where
  "signed s =
     (case s of
        [] \<Rightarrow> (False, [])
      | c # r \<Rightarrow>
          if c = CHR ''-'' then (True, r)
          else if c = CHR ''+'' then (False, r)
          else (False, s))"

definition parseFloat :: "string option \<Rightarrow> number" where
  "parseFloat v =
     (case v of
        None \<Rightarrow> NaN
      | Some s \<Rightarrow>
          (let (negative, r) = signed (dropWhile whitespace s);
               whole = takeWhile digit r;
               r1 = dropWhile digit r;
               fraction = (case r1 of
                             [] \<Rightarrow> []
                           | c # r2 \<Rightarrow> if c = CHR ''.'' then takeWhile digit r2 else [])
           in if whole = [] \<and> fraction = [] then NaN
              else let m = of_nat (decimal whole)
                         + of_nat (decimal fraction) / 10 ^ length fraction
                   in Num (if negative then - m else m)))"

text \<open>\<open>parseInt(v, 10)\<close>\<close>

definition parseInt :: "string option \<Rightarrow> number" where
  "parseInt v =
     (case v of
        None \<Rightarrow> NaN
      | Some s \<Rightarrow>
          (let (negative, r) = signed (dropWhile whitespace s);
               ds = takeWhile digit r
           in if ds = [] then NaN
              else Num (if negative then - of_nat (decimal ds) else of_nat (decimal ds))))"

text \<open>The decimal digits of a natural number, as \<open>toFixed\<close> writes them.\<close>

fun digits :: "nat \<Rightarrow> string" where
  "digits n =
     (if n < 10 then [''0123456789'' ! n]
      else digits (n div 10) @ [''0123456789'' ! (n mod 10)])"

declare digits.simps [simp del]

text \<open>
  \<open>coord.toFixed(1)\<close> of a number below \<open>10^21\<close> in magnitude (above, the runtime
  switches to exponent notation): \<open>n\<close> is the integer nearest to ten times the magnitude,
  the larger one of two, and the text is its digits with a point before the last.
\<close>

definition toFixed1 :: "rat \<Rightarrow> string" where
  "toFixed1 v =
     (let s = (if v < 0 then ''-'' else []);
          n = nat \<lfloor>\<bar>v\<bar> * 10 + 1 / 2\<rfloor>;
          m = digits n;
          m1 = (if length m \<le> 1 then replicate (2 - length m) CHR ''0'' @ m else m);
          k = length m1
      in s @ take (k - 1) m1 @ ''.'' @ drop (k - 1) m1)"

section \<open>Response decoders\<close>

text \<open>\<open>string.split(separator)\<close> for separators of one character.\<close>

fun split_by :: "(char \<Rightarrow> bool) \<Rightarrow> string \<Rightarrow> string list" where
  "split_by sep [] = [[]]"
| "split_by sep (c # cs) =
     (let r = split_by sep cs
      in if sep c then [] # r else (c # hd r) # tl r)"

text \<open>An array element by index: \<open>undefined\<close> past the end.\<close>

definition at_index :: "'a list \<Rightarrow> nat \<Rightarrow> 'a option" where
  "at_index xs i = (if i < length xs then Some (xs ! i) else None)"

text \<open>\<open>array.map(f)\<close> where \<open>f\<close> may throw: the first exception ends the map.\<close>

fun map_throw :: "('a \<Rightarrow> error + 'b) \<Rightarrow> 'a list \<Rightarrow> error + 'b list" where
  "map_throw f [] = Inr []"
| "map_throw f (x # xs) =
     (case f x of
        Inl e \<Rightarrow> Inl e
      | Inr y \<Rightarrow> (case map_throw f xs of Inl e \<Rightarrow> Inl e | Inr ys \<Rightarrow> Inr (y # ys)))"

subsection \<open>Settings\<close>

record setting_entry =
  code :: string
  setting :: "string option"
  units :: "string option"
  description :: "string option"
  val :: string

text \<open>The callback of \<open>settings.map\<close>.\<close>

definition setting_of_line :: "catalog \<Rightarrow> string \<Rightarrow> error + setting_entry" where
  "setting_of_line SETTING_CODES line =
     (case match_setting line of
        Some (c, v) \<Rightarrow>
          (let row = find_row SETTING_CODES ''Code'' c
           in Inr \<lparr>code = c, setting = row ''Setting'', units = row ''Units'',
                   description = row ''Setting Description'', val = v\<rparr>)
      | None \<Rightarrow> Inl (Protocol (new_ProtocolError ''Expected settings format $x=val'' (Some line))))"

text \<open>
  \<open>settings ()\<close> calls \<open>command('$$')\<close>; \<open>settings_result\<close> is the rest of its body, given what
  the awaited call returned or threw.
\<close>

definition settings :: "GrblStream \<Rightarrow> GrblStream" where
  "settings st = command ''$$'' st"

definition settings_result :: "catalog \<Rightarrow> error + string list \<Rightarrow> error + setting_entry list" where
  "settings_result SETTING_CODES awaited =
     (case awaited of
        Inl e \<Rightarrow> Inl e
      | Inr response \<Rightarrow> map_throw (setting_of_line SETTING_CODES) response)"

subsection \<open>Status\<close>

text \<open>
  The objects inside the result are tuples: \<open>(x, y, z)\<close>, \<open>(plannerBlocks, rxBytes)\<close>,
  \<open>(feedRate, spindle)\<close> and \<open>(feed, rapids, spindle)\<close>. A field that was never assigned is
  \<open>None\<close>.
\<close>

record MachineStatus =
  state :: string
  machinePosition :: "(number \<times> number \<times> number) option"
  workCoordinateOffset :: "(number \<times> number \<times> number) option"
  buffer :: "(number \<times> number) option"
  feedAndSpeed :: "(number \<times> number) option"
  pinState :: "string option"
  overrideValues :: "(number \<times> number \<times> number) option"

text \<open>The callback of \<open>segments.forEach\<close>; a \<open>switch\<close> with no \<open>default\<close>.\<close>

definition status_segment :: "string \<Rightarrow> MachineStatus \<Rightarrow> MachineStatus" where
  "status_segment segment result =
     (let parts = split_by (\<lambda>c. c = CHR '':'' \<or> c = CHR '','') segment;
          type = at_index parts 0;
          a = at_index parts 1;
          b = at_index parts 2;
          c = at_index parts 3
      in if type = Some ''MPos'' then
           result\<lparr>machinePosition := Some (parseFloat a, parseFloat b, parseFloat c)\<rparr>
         else if type = Some ''WCO'' then
           result\<lparr>workCoordinateOffset := Some (parseFloat a, parseFloat b, parseFloat c)\<rparr>
         else if type = Some ''Bf'' then
           result\<lparr>buffer := Some (parseInt a, parseInt b)\<rparr>
         else if type = Some ''FS'' then
           result\<lparr>feedAndSpeed := Some (parseInt a, parseInt b)\<rparr>
         else if type = Some ''Pn'' then
           result\<lparr>pinState := a\<rparr>
         else if type = Some ''Ov'' then
           result\<lparr>overrideValues := Some (parseInt a, parseInt b, parseInt c)\<rparr>
         else result)"

text \<open>\<open>array.pop()\<close>: the last element, \<open>undefined\<close> for an empty array.\<close>

definition pop :: "'a list \<Rightarrow> 'a option" where
  "pop xs = (if xs = [] then None else Some (last xs))"

definition status_format :: "string option \<Rightarrow> error" where
  "status_format inp = Protocol (new_ProtocolError ''Expected status format'' inp)"

text \<open>The body of \<open>status ()\<close> after \<open>await this.command('?')\<close> returned \<open>response\<close>.\<close>

definition status_of_response :: "string list \<Rightarrow> error + MachineStatus" where
  "status_of_response response =
     (case pop response of
        None \<Rightarrow> Inl (status_format None)
      | Some status \<Rightarrow>
          if status = [] \<or> \<not> prefix ''<'' status \<or> \<not> suffix ''>'' status
          then Inl (status_format (Some status))
          else let segments = split_by (\<lambda>c. c = CHR ''|'')
                                (take (length status - 2) (drop 1 status));
                   result = \<lparr>state = hd segments, machinePosition = None,
                             workCoordinateOffset = None, buffer = None, feedAndSpeed = None,
                             pinState = None, overrideValues = None\<rparr>
               in Inr (fold status_segment segments result))"

definition status :: "GrblStream \<Rightarrow> GrblStream" where
  "status st = command ''?'' st"

definition status_result :: "error + string list \<Rightarrow> error + MachineStatus" where
  "status_result awaited =
     (case awaited of
        Inl e \<Rightarrow> Inl e
      | Inr response \<Rightarrow> status_of_response response)"

section \<open>Position\<close>

definition formatCoordinate :: "string \<Rightarrow> rat option \<Rightarrow> string option" where
  "formatCoordinate axis coord =
     (case coord of None \<Rightarrow> None | Some v \<Rightarrow> Some (axis @ toFixed1 v))"

text \<open>\<open>array.filter(Boolean)\<close> drops \<open>undefined\<close> and the empty string.\<close>

definition filter_Boolean :: "string option list \<Rightarrow> string list" where
  "filter_Boolean xs = map the (filter (\<lambda>v. v \<noteq> None \<and> v \<noteq> Some []) xs)"

fun join :: "string \<Rightarrow> string list \<Rightarrow> string" where
  "join sep [] = []"
| "join sep [x] = x"
| "join sep (x # y # ys) = x @ sep @ join sep (y # ys)"

text \<open>
  The first argument of \<open>position\<close>: an object with its \<open>x\<close>, \<open>y\<close> and \<open>z\<close> (each possibly
  missing), a number, \<open>undefined\<close>, or \<open>null\<close>, whose \<open>typeof\<close> is \<open>'object'\<close> too and whose
  \<open>.x\<close> throws.
\<close>

datatype xOrPoint =
    Point "rat option" "rat option" "rat option"
  | Coordinate rat
  | Undefined
  | Null

definition position_coordinates :: "rat option \<Rightarrow> rat option \<Rightarrow> rat option \<Rightarrow> string" where
  "position_coordinates px py pz =
     join '' '' (filter_Boolean
       [formatCoordinate ''X'' px, formatCoordinate ''Y'' py, formatCoordinate ''Z'' pz])"

fun position ::
  "xOrPoint \<Rightarrow> rat option \<Rightarrow> rat option \<Rightarrow> GrblStream \<Rightarrow> (unit, GrblStream) completion"
where
  "position (Point px py pz) y z st = Return () (command (position_coordinates px py pz) st)"
| "position (Coordinate v) y z st = Return () (command (position_coordinates (Some v) y z) st)"
| "position Undefined y z st = Return () (command (position_coordinates None y z) st)"
| "position Null y z st = Throw (TypeError ''Cannot read properties of null'') st"


section \<open>The grammars in words, and example sessions\<close>

text \<open>The lines that end a response: \<open>ok\<close> and \<open>error:<code>\<close>.\<close>

definition terminal :: "string \<Rightarrow> bool" where
  "terminal data \<longleftrightarrow> data = ''ok'' \<or> prefix ''error:'' data"

text \<open>
  The settings grammar as the specification words it, \<open>$<code>=<value>\<close>: the code is not
  empty and has no \<open>=\<close>, the value has no space and runs to the first space or to the end
  of the line.
\<close>

definition is_setting_line :: "string \<Rightarrow> string \<Rightarrow> string \<Rightarrow> bool" where
  "is_setting_line line c v \<longleftrightarrow>
     (\<exists>rest. line = ''$'' @ c @ ''='' @ v @ rest \<and> c \<noteq> [] \<and> CHR ''='' \<notin> set c \<and>
        CHR '' '' \<notin> set v \<and> (rest = [] \<or> hd rest = CHR '' ''))"

text \<open>The entry for a code and a value, with the catalog's three columns.\<close>

definition setting_entry_of :: "catalog \<Rightarrow> string \<times> string \<Rightarrow> setting_entry" where
  "setting_entry_of SETTING_CODES = (\<lambda>(c, v).
     \<lparr>code = c,
      setting = find_row SETTING_CODES ''Code'' c ''Setting'',
      units = find_row SETTING_CODES ''Code'' c ''Units'',
      description = find_row SETTING_CODES ''Code'' c ''Setting Description'',
      val = v\<rparr>)"

text \<open>The keys of the \<open>switch\<close> in \<open>status\<close>, and the key of a segment.\<close>

definition recognised :: "string list" where
  "recognised = [''MPos'', ''WCO'', ''Bf'', ''FS'', ''Pn'', ''Ov'']"

definition segment_key :: "string \<Rightarrow> string" where
  "segment_key segment = takeWhile (\<lambda>c. c \<noteq> CHR '':'' \<and> c \<noteq> CHR '','') segment"

definition idle_report :: string where
  "idle_report = ''<Idle|MPos:0.000,1.500,-2.000|WCO:0.000,0.000,0.000>''"

text \<open>The object as a call leaves it, whether it returned or threw.\<close>

fun after :: "('a, 's) completion \<Rightarrow> 's" where
  "after (Return _ s) = s"
| "after (Throw _ s) = s"

text \<open>
  Two invariants of the stream. \<open>consistent\<close>: the listeners are distinct and belong to
  calls of \<open>_ok\<close> that were made, and neither the collected lines nor a resolved result
  hold a terminal marker. \<open>framed\<close>: every pushed chunk is the text of a call of \<open>command\<close>
  followed by LF, and the lock and the queued callbacks name only calls that were made.
\<close>

definition consistent :: "GrblStream \<Rightarrow> bool" where
  "consistent st \<longleftrightarrow>
     distinct (listeners st) \<and>
     (\<forall>k\<in>set (listeners st). k < noks st) \<and>
     (\<forall>k. \<forall>l\<in>set (lines (oks st k)). \<not> terminal l) \<and>
     (\<forall>k ls. outcome (oks st k) = Some (Inr ls) \<longrightarrow> (\<forall>l\<in>set ls. \<not> terminal l))"

definition framed :: "GrblStream \<Rightarrow> bool" where
  "framed st \<longleftrightarrow>
     (\<forall>x\<in>set (pushed st). \<exists>n<ncalls st. x = cmd (calls st n) @ [LF]) \<and>
     (\<forall>n. Resume n \<in> set (jobs st) \<longrightarrow> n < ncalls st) \<and>
     (\<forall>n. lock_used st = Some (Cmd n) \<longrightarrow> n < ncalls st) \<and>
     (\<forall>n. Cmd n \<in> set (lock_queue st) \<longrightarrow> n < ncalls st)"

text \<open>
  A bound on the work that the queued callbacks can still cause: the callbacks
  themselves, those waiting for \<open>future\<close>, the listeners whose promise is not settled
  (each may queue a \<open>Finish\<close>) and the calls of \<open>command\<close> that wait for the lock (each
  may queue a \<open>Resume\<close>).
\<close>

fun weight :: "job \<Rightarrow> nat" where
  "weight Call = 1"
| "weight (Then _) = 2"
| "weight (Resume _) = 3"
| "weight (Finish _) = 2"

definition potential :: "GrblStream \<Rightarrow> nat" where
  "potential st =
     sum_list (map weight (jobs st)) + 2 * length (future_then st)
     + 2 * length (filter (\<lambda>k. outcome (oks st k) = None) (listeners st))
     + 3 * length (filter (\<lambda>n. \<not> granted (calls st n)) [0..<ncalls st])"

text \<open>
  The stream in steady state, by what the lock is doing. \<open>written st r\<close>: the pushed
  chunks are the texts of the first \<open>r\<close> calls of \<open>command\<close>, in call order.
  \<open>settled_before st c\<close>: every call before the \<open>c\<close>-th has had its response resolved or
  rejected. \<open>quiet\<close>: no subscribed listener waits for a response. The lock is free
  (\<open>resting\<close>), or the \<open>c\<close>-th call holds it and the later calls queue behind it in call
  order (\<open>holding\<close>): its tick is queued (\<open>granting\<close>), its body is queued (\<open>resuming\<close>),
  it has written its text and waits for the response (\<open>listening\<close>), or its response is
  settled and the rest of its body is queued (\<open>finishing\<close>).
\<close>

definition settled_before :: "GrblStream \<Rightarrow> nat \<Rightarrow> bool" where
  "settled_before st c \<longleftrightarrow>
     (\<forall>n<c. \<exists>k<noks st. awaited_by (oks st k) = n \<and> outcome (oks st k) \<noteq> None)"

definition quiet :: "GrblStream \<Rightarrow> bool" where
  "quiet st \<longleftrightarrow> (\<forall>k\<in>set (listeners st). outcome (oks st k) \<noteq> None)"

definition written :: "GrblStream \<Rightarrow> nat \<Rightarrow> bool" where
  "written st r \<longleftrightarrow> pushed st = map (\<lambda>n. cmd (calls st n) @ [LF]) [0..<r]"

definition resting :: "GrblStream \<Rightarrow> bool" where
  "resting st \<longleftrightarrow>
     lock_used st = None \<and> lock_queue st = [] \<and> jobs st = [] \<and> quiet st \<and>
     written st (ncalls st) \<and> settled_before st (ncalls st)"

definition holding :: "nat \<Rightarrow> GrblStream \<Rightarrow> bool" where
  "holding c st \<longleftrightarrow>
     c < ncalls st \<and> lock_used st = Some (Cmd c) \<and>
     lock_queue st = map Cmd [Suc c..<ncalls st] \<and> settled_before st c \<and>
     (\<forall>n. c < n \<and> n < ncalls st \<longrightarrow> \<not> granted (calls st n))"

definition granting :: "nat \<Rightarrow> GrblStream \<Rightarrow> bool" where
  "granting c st \<longleftrightarrow>
     holding c st \<and> jobs st = [Call] \<and> \<not> granted (calls st c) \<and> quiet st \<and> written st c"

definition resuming :: "nat \<Rightarrow> GrblStream \<Rightarrow> bool" where
  "resuming c st \<longleftrightarrow> holding c st \<and> jobs st = [Resume c] \<and> quiet st \<and> written st c"

definition listening :: "nat \<Rightarrow> nat \<Rightarrow> GrblStream \<Rightarrow> bool" where
  "listening c k st \<longleftrightarrow>
     holding c st \<and> jobs st = [] \<and> written st (Suc c) \<and> k < noks st \<and>
     awaited_by (oks st k) = c \<and> outcome (oks st k) = None \<and>
     (\<forall>j\<in>set (listeners st). j \<noteq> k \<longrightarrow> outcome (oks st j) \<noteq> None)"

definition finishing :: "nat \<Rightarrow> nat \<Rightarrow> GrblStream \<Rightarrow> bool" where
  "finishing c k st \<longleftrightarrow>
     holding c st \<and> jobs st = [Finish k] \<and> written st (Suc c) \<and> k < noks st \<and>
     awaited_by (oks st k) = c \<and> outcome (oks st k) \<noteq> None \<and> quiet st"

definition ordered :: "GrblStream \<Rightarrow> bool" where
  "ordered st \<longleftrightarrow>
     this_parse st = Onmessage \<and> (\<forall>k\<in>set (listeners st). k < noks st) \<and>
     (resting st \<or>
      (\<exists>c. granting c st \<or> resuming c st \<or> (\<exists>k. listening c k st \<or> finishing c k st)))"

text \<open>
  A controller that boots with its banner and its unlock notice in one chunk, and the
  stream after that.
\<close>

definition unlock_notice :: string where
  "unlock_notice = ''[MSG:'' @ [apostrophe] @ ''$H'' @ [apostrophe] @ ''|'' @ [apostrophe]
     @ ''$X'' @ [apostrophe] @ '' to unlock]''"

definition boot :: "action list" where
  "boot = [Chunk (''Grbl 1.1f'' @ for_help @ DELIMETER @ unlock_notice @ DELIMETER), Idle]"

definition booted :: GrblStream where
  "booted = the (run [] boot)"

text \<open>One row of each catalog, for the examples.\<close>

definition example_error_codes :: catalog where
  "example_error_codes =
     [[''Error Code'' \<mapsto> ''9'', ''Error Message'' \<mapsto> ''G-code lock'',
       ''Error Description'' \<mapsto> ''G-code locked out during alarm or jog state.'']]"

definition example_setting_codes :: catalog where
  "example_setting_codes =
     [[''Code'' \<mapsto> ''0'', ''Setting'' \<mapsto> ''Step pulse time'', ''Units'' \<mapsto> ''microseconds'',
       ''Setting Description'' \<mapsto> ''Sets time length per step. Minimum 3usec.'']]"

text \<open>The booted stream once \<open>command('$X')\<close> has been written and waits for its response.\<close>

definition awaiting :: GrblStream where
  "awaiting = the (run example_error_codes (boot @ [Submit ''$X'', Idle]))"

section \<open>Properties of the line framer\<close>

lemma indexOf_append:
  "indexOf a pat = Some p \<Longrightarrow> indexOf (a @ b) pat = Some p"
proof (induction a arbitrary: p)
  case Nil
  then show ?case by (cases b) (auto split: if_splits)
next
  case (Cons c cs)
  show ?case
  proof (cases "prefix pat (c # cs)")
    case True
    then have "prefix pat ((c # cs) @ b)" by (rule prefix_prefix)
    with True Cons.prems show ?thesis by simp
  next
    case False
    with Cons.prems obtain q where q: "indexOf cs pat = Some q" "p = Suc q"
      by auto
    from q(1) have len: "q + length pat \<le> length cs" by (rule indexOf_bound)
    have "\<not> prefix pat ((c # cs) @ b)"
    proof
      assume "prefix pat ((c # cs) @ b)"
      then have "prefix pat (c # cs) \<or> prefix (c # cs) pat"
        by (metis prefix_append prefix_def prefix_same_cases)
      with False have "prefix (c # cs) pat" by simp
      then have "length (c # cs) \<le> length pat" by (rule prefix_length_le)
      moreover from False have "pat \<noteq> c # cs" by auto
      ultimately show False using len \<open>prefix (c # cs) pat\<close>
        by (cases "q = 0") (auto simp: prefix_def)
    qed
    with q Cons.IH show ?thesis by simp
  qed
qed

lemma write_loop_append:
  "write_loop parse (a @ b) this =
     (case write_loop parse a this of
        Throw e this' \<Rightarrow> Throw e this'
      | Return rest this' \<Rightarrow> write_loop parse (rest @ b) this')"
proof (induction parse a this rule: write_loop.induct)
  case (1 parse buf this)
  show ?case
  proof (cases "indexOf buf DELIMETER")
    case None
    then show ?thesis by (simp add: write_loop.simps [of parse buf])
  next
    case (Some position)
    then have bound: "position + length DELIMETER \<le> length buf"
      by (rule indexOf_bound)
    from Some have app: "indexOf (buf @ b) DELIMETER = Some position"
      by (rule indexOf_append)
    show ?thesis
    proof (cases "if take position buf \<noteq> [] then parse (take position buf) this
        else Return () this")
      case (Throw e this')
      with Some app bound show ?thesis
        by (simp add: write_loop.simps [of parse buf] write_loop.simps [of parse "buf @ b"])
    next
      case (Return u this')
      with Some app bound "1.IH" [OF Some refl Return] show ?thesis
        by (simp add: write_loop.simps [of parse buf] write_loop.simps [of parse "buf @ b"])
    qed
  qed
qed

lemma write_loop_rest:
  "write_loop parse buf this = Return rest this' \<Longrightarrow> indexOf rest DELIMETER = None"
proof (induction parse buf this rule: write_loop.induct)
  case (1 parse buf this)
  show ?case
  proof (cases "indexOf buf DELIMETER")
    case None
    with "1.prems" show ?thesis by (simp add: write_loop.simps [of parse buf])
  next
    case (Some position)
    show ?thesis
    proof (cases "if take position buf \<noteq> [] then parse (take position buf) this
        else Return () this")
      case (Throw e this1)
      with Some "1.prems" show ?thesis
        by (simp add: write_loop.simps [of parse buf])
    next
      case (Return u this1)
      with Some "1.prems" "1.IH" [OF Some refl Return] show ?thesis
        by (simp add: write_loop.simps [of parse buf])
    qed
  qed
qed

lemma feed_concat:
  "indexOf buf DELIMETER = None \<Longrightarrow>
   interpreter_state (feed parse chunks (buf, this)) =
     interpreter_state (write_chunk parse (concat chunks) (buf, this)) \<and>
   buffered (feed parse chunks (buf, this)) =
     buffered (write_chunk parse (concat chunks) (buf, this))"
proof (induction chunks arbitrary: buf this)
  case Nil
  then show ?case by (simp add: write_chunk_def write_loop.simps [of parse buf])
next
  case (Cons data chunks)
  show ?case
  proof (cases "write_loop parse (buf @ data) this")
    case (Throw e this')
    then show ?thesis
      using write_loop_append [of parse "buf @ data" "concat chunks" this]
      by (simp add: write_chunk_def)
  next
    case (Return rest this')
    then have "indexOf rest DELIMETER = None" by (rule write_loop_rest)
    from Cons.IH [OF this, of this'] Return show ?thesis
      using write_loop_append [of parse "buf @ data" "concat chunks" this]
      by (simp add: write_chunk_def split: completion.splits)
  qed
qed

text \<open>
  C5. Chunk-size independence of the framer: however a byte sequence is cut into chunks,
  writing the chunks one at a time to a new stream hands the interpreter the same lines,
  in the same order, as writing the whole sequence as one chunk.
\<close>

theorem framer_chunk_independence:
  "dispatched chunks = dispatched [concat chunks]"
proof -
  have "indexOf [] DELIMETER = None" by (simp add: DELIMETER_def)
  from feed_concat [OF this, of record_line chunks "[]"]
  have "interpreter_state (feed record_line chunks ([], [])) =
     interpreter_state (write_chunk record_line (concat chunks) ([], []))"
    by simp
  then show ?thesis
    by (cases "write_chunk record_line (concat chunks) ([], [])" rule: interpreter_state.cases)
       (simp_all add: dispatched_def)
qed

section \<open>Properties of the boot banner\<close>

text \<open>
  The matcher of \<open>onversion\<close> accepts exactly the banners of the specification's pattern,
  and captures the version.
\<close>

lemma letter_not_digit: "letter c \<Longrightarrow> \<not> digit c"
  by (auto simp: letter_def digit_def)

lemma takeWhile_run:
  "list_all P xs \<Longrightarrow> \<not> P y \<Longrightarrow> takeWhile P (xs @ y # ys) = xs"
  by (induction xs) auto

lemma dropWhile_run:
  "list_all P xs \<Longrightarrow> \<not> P y \<Longrightarrow> dropWhile P (xs @ y # ys) = y # ys"
  by (induction xs) auto

lemma list_all_takeWhile: "list_all P (takeWhile P xs)"
  by (induction xs) auto

lemma match_version_banner:
  assumes "major \<noteq> []" "minor \<noteq> []" "list_all digit major" "list_all digit minor" "letter c"
  shows "match_version (''Grbl '' @ major @ ''.'' @ minor @ [c] @ for_help)
    = Some (major @ ''.'' @ minor @ [c])"
proof -
  have dot: "\<not> digit CHR ''.''" by (simp add: digit_def)
  from assms(5) have c: "\<not> digit c" by (rule letter_not_digit)
  have t1: "takeWhile digit (major @ CHR ''.'' # minor @ c # for_help) = major"
    using assms(3) dot by (rule takeWhile_run)
  have d1: "dropWhile digit (major @ CHR ''.'' # minor @ c # for_help)
    = CHR ''.'' # minor @ c # for_help"
    using assms(3) dot by (rule dropWhile_run)
  have t2: "takeWhile digit (minor @ c # for_help) = minor"
    using assms(4) c by (rule takeWhile_run)
  have d2: "dropWhile digit (minor @ c # for_help) = c # for_help"
    using assms(4) c by (rule dropWhile_run)
  show ?thesis
    using assms(1,2,5) by (simp add: match_version_def t1 d1 t2 d2)
qed

lemma match_version_Some:
  assumes "match_version data = Some v"
  shows "\<exists>major minor c. major \<noteq> [] \<and> minor \<noteq> [] \<and> list_all digit major \<and>
    list_all digit minor \<and> letter c \<and> v = major @ ''.'' @ minor @ [c] \<and>
    data = ''Grbl '' @ v @ for_help"
proof -
  from assms have p: "prefix ''Grbl '' data"
    by (auto simp: match_version_def split: if_splits)
  define r where "r = drop 5 data"
  from p have data: "data = ''Grbl '' @ r"
    by (auto simp: r_def prefix_def)
  define major where "major = takeWhile digit r"
  define r1 where "r1 = dropWhile digit r"
  have r: "r = major @ r1" by (simp add: major_def r1_def)
  from assms p have m1: "major \<noteq> []"
    by (auto simp: match_version_def Let_def r_def major_def split: if_splits)
  from assms p m1 obtain r2 where r1: "r1 = CHR ''.'' # r2"
    by (auto simp: match_version_def Let_def r_def major_def r1_def
        split: if_splits list.splits)
  define minor where "minor = takeWhile digit r2"
  define r3 where "r3 = dropWhile digit r2"
  have r2: "r2 = minor @ r3" by (simp add: minor_def r3_def)
  from assms p m1 r1 have m2: "minor \<noteq> []"
    by (auto simp: match_version_def Let_def r_def major_def r1_def minor_def
        split: if_splits list.splits)
  from assms p m1 r1 m2 obtain c where c: "r3 = c # for_help" "letter c"
    "v = major @ ''.'' @ minor @ [c]"
    by (auto simp: match_version_def Let_def r_def major_def r1_def minor_def r3_def
        split: if_splits list.splits)
  have "list_all digit major" "list_all digit minor"
    by (simp_all add: major_def minor_def list_all_takeWhile)
  moreover have "data = ''Grbl '' @ v @ for_help"
    using data r r1 r2 c by simp
  ultimately show ?thesis using m1 m2 c by blast
qed

lemma is_version_banner_iff: "is_version_banner data \<longleftrightarrow> match_version data \<noteq> None"
proof
  assume "is_version_banner data"
  then obtain major minor c where "major \<noteq> []" "minor \<noteq> []" "list_all digit major"
    "list_all digit minor" "letter c"
    and data: "data = ''Grbl '' @ major @ ''.'' @ minor @ [c] @ for_help"
    unfolding is_version_banner_def by blast
  from match_version_banner [OF this(1-5)] show "match_version data \<noteq> None"
    unfolding data by simp
next
  assume "match_version data \<noteq> None"
  then obtain v where "match_version data = Some v" by auto
  from match_version_Some [OF this] show "is_version_banner data"
    by (auto simp: is_version_banner_def)
qed

text \<open>
  C3. While the stream still waits for the version banner, a line that does not match
  \<open>Grbl <digits>.<digits><letter> ['$' for help]\<close> destroys the stream with a
  ProtocolError whose input is that line, and the interpreter stays \<open>onversion\<close>: the
  statement after \<open>destroy\<close> throws, so nothing is emitted and \<open>_parse\<close> is not replaced.
\<close>

theorem malformed_banner_is_fatal:
  assumes "this_parse st = Onversion" and "destroyed st = None"
    and "\<not> is_version_banner data"
  shows "parse_line ERROR_CODES data st =
    Throw (TypeError ''Cannot read properties of null'')
      (st\<lparr>destroyed := Some (Protocol \<lparr>message = version_format, input = Some data\<rparr>)\<rparr>)"
  using assms
  by (simp add: is_version_banner_iff parse_line_def onversion_def destroy_def
      new_ProtocolError_def)

theorem malformed_banner_is_fatal_witness:
  "this_parse new_GrblStream = Onversion \<and> destroyed new_GrblStream = None \<and>
   \<not> is_version_banner ''Grbl bogus'' \<and>
   parse_line [] ''Grbl bogus'' new_GrblStream =
     Throw (TypeError ''Cannot read properties of null'')
       (new_GrblStream\<lparr>destroyed :=
          Some (Protocol \<lparr>message = version_format, input = Some ''Grbl bogus''\<rparr>)\<rparr>)"
proof -
  have a: "this_parse new_GrblStream = Onversion"
    by (simp add: new_GrblStream_def acquire_def)
  have b: "destroyed new_GrblStream = None"
    by (simp add: new_GrblStream_def acquire_def)
  have c: "\<not> is_version_banner ''Grbl bogus''"
    by (simp add: is_version_banner_iff match_version_def)
  from malformed_banner_is_fatal [OF a b c, of "[]"] a b c show ?thesis
    by blast
qed

text \<open>
  The whole session for the chunk \<open>Grbl bogus\r\n\<close>: the stream is destroyed with the
  ProtocolError, the TypeError is uncaught, nothing was emitted, and the interpreter is
  still \<open>onversion\<close>.
\<close>

lemma bogus_banner_session:
  "destroyed (the (run [] [Chunk (''Grbl bogus'' @ DELIMETER), Idle]))
     = Some (Protocol \<lparr>message = version_format, input = Some ''Grbl bogus''\<rparr>) \<and>
   uncaught (the (run [] [Chunk (''Grbl bogus'' @ DELIMETER), Idle]))
     = Some (TypeError ''Cannot read properties of null'') \<and>
   emitted (the (run [] [Chunk (''Grbl bogus'' @ DELIMETER), Idle])) = [] \<and>
   this_parse (the (run [] [Chunk (''Grbl bogus'' @ DELIMETER), Idle])) = Onversion"
  by code_simp

section \<open>What one message does to the listeners\<close>

lemma ok_onmessage_other:
  "j \<noteq> k \<Longrightarrow> oks (ok_onmessage E j data st) k = oks st k"
  by (simp add: ok_onmessage_def settle_def Let_def)

lemma ok_onmessage_listeners:
  "listeners (ok_onmessage E j data st) =
     (if data = ''ok'' then remove1 j (listeners st) else listeners st)"
  by (simp add: ok_onmessage_def settle_def Let_def)

lemma ok_onmessage_own:
  "oks (ok_onmessage E k data st) k =
     (if data = ''ok'' then
        (if outcome (oks st k) = None
         then (oks st k)\<lparr>outcome := Some (Inr (lines (oks st k)))\<rparr> else oks st k)
      else if prefix ''error:'' data then
        (if outcome (oks st k) = None
         then (oks st k)\<lparr>outcome := Some (Inl (Command (fromCode E (drop 6 data))))\<rparr>
         else oks st k)
      else (oks st k)\<lparr>lines := lines (oks st k) @ [data]\<rparr>)"
  by (simp add: ok_onmessage_def settle_def Let_def)

lemma fold_ok_onmessage_other:
  "k \<notin> set ks \<Longrightarrow> oks (fold (\<lambda>j. ok_onmessage E j data) ks st) k = oks st k"
  by (induction ks arbitrary: st) (simp_all add: ok_onmessage_other)

lemma fold_ok_onmessage_own:
  "k \<in> set ks \<Longrightarrow> distinct ks \<Longrightarrow>
   oks (fold (\<lambda>j. ok_onmessage E j data) ks st) k = oks (ok_onmessage E k data st) k"
proof (induction ks arbitrary: st)
  case Nil
  then show ?case by simp
next
  case (Cons j ks)
  show ?case
  proof (cases "j = k")
    case True
    with Cons.prems have "k \<notin> set ks" by simp
    with True show ?thesis by (simp add: fold_ok_onmessage_other)
  next
    case False
    with Cons.prems have "k \<in> set ks" "distinct ks" by simp_all
    from Cons.IH [OF this] False show ?thesis
      by (simp add: ok_onmessage_own ok_onmessage_other)
  qed
qed

lemma fold_ok_onmessage_listeners:
  "listeners (fold (\<lambda>j. ok_onmessage E j data) ks st) =
     (if data = ''ok'' then fold remove1 ks (listeners st) else listeners st)"
  by (induction ks arbitrary: st) (simp_all add: ok_onmessage_listeners)

lemma fold_remove1_self: "fold remove1 xs xs = []"
  by (induction xs) simp_all

lemma emit_message_promise:
  "k \<in> set (listeners st) \<Longrightarrow> distinct (listeners st) \<Longrightarrow>
   oks (emit_message E data st) k = oks (ok_onmessage E k data st) k"
  by (simp add: emit_message_def fold_ok_onmessage_own ok_onmessage_own)

lemma emit_message_not_listening:
  "k \<notin> set (listeners st) \<Longrightarrow> oks (emit_message E data st) k = oks st k"
  by (simp add: emit_message_def fold_ok_onmessage_other)

lemma emit_message_listeners:
  "listeners (emit_message E data st) = (if data = ''ok'' then [] else listeners st)"
  by (simp add: emit_message_def fold_ok_onmessage_listeners fold_remove1_self)

lemma ok_onmessage_jobs:
  "jobs (ok_onmessage E j data st) =
     jobs st @ (if (data = ''ok'' \<or> prefix ''error:'' data) \<and> outcome (oks st j) = None
                then [Finish j] else [])"
  by (simp add: ok_onmessage_def settle_def Let_def)

lemma fold_ok_onmessage_jobs_mono:
  "set (jobs st) \<subseteq> set (jobs (fold (\<lambda>j. ok_onmessage E j data) ks st))"
proof (induction ks arbitrary: st)
  case Nil
  then show ?case by simp
next
  case (Cons j ks)
  have "set (jobs st) \<subseteq> set (jobs (ok_onmessage E j data st))"
    by (simp add: ok_onmessage_jobs)
  also have "\<dots> \<subseteq> set (jobs (fold (\<lambda>j. ok_onmessage E j data) ks (ok_onmessage E j data st)))"
    by (rule Cons.IH)
  finally show ?case by simp
qed

lemma emit_message_queues_finish:
  assumes "k \<in> set (listeners st)" "outcome (oks st k) = None"
    and "data = ''ok'' \<or> prefix ''error:'' data"
  shows "Finish k \<in> set (jobs (emit_message E data st))"
proof -
  have "k \<in> set ks \<Longrightarrow> outcome (oks s k) = None \<Longrightarrow>
    Finish k \<in> set (jobs (fold (\<lambda>j. ok_onmessage E j data) ks s))" for ks s
  proof (induction ks arbitrary: s)
    case Nil
    then show ?case by simp
  next
    case (Cons j ks)
    show ?case
    proof (cases "j = k")
      case True
      with Cons.prems assms(3) have "Finish k \<in> set (jobs (ok_onmessage E j data s))"
        by (simp add: ok_onmessage_jobs)
      with fold_ok_onmessage_jobs_mono [of "ok_onmessage E j data s" E data ks]
      show ?thesis by auto
    next
      case False
      with Cons.prems have "k \<in> set ks" "outcome (oks (ok_onmessage E j data s) k) = None"
        by (simp_all add: ok_onmessage_other)
      from Cons.IH [OF this] show ?thesis by simp
    qed
  qed
  from this [of "listeners st" "st\<lparr>emitted := emitted st @ [Message data]\<rparr>"] assms(1,2)
  show ?thesis by (simp add: emit_message_def)
qed

section \<open>Invariants of the stream\<close>

text \<open>
  Whatever the interpreter preserves, the framer's loop preserves, whether it ends or
  throws.
\<close>

lemma write_loop_invariant:
  "(\<forall>line s. P s \<longrightarrow> P (after (parse line s))) \<Longrightarrow> P this \<Longrightarrow>
   P (after (write_loop parse buf this))"
proof (induction parse buf this rule: write_loop.induct)
  case (1 parse buf this)
  show ?case
  proof (cases "indexOf buf DELIMETER")
    case None
    with "1.prems" show ?thesis by (simp add: write_loop.simps [of parse buf])
  next
    case (Some position)
    have line: "P (after (if take position buf \<noteq> [] then parse (take position buf) this
        else Return () this))"
      using "1.prems" by simp
    show ?thesis
    proof (cases "if take position buf \<noteq> [] then parse (take position buf) this
        else Return () this")
      case (Throw e this')
      with line have "P this'" by simp
      with Some Throw show ?thesis by (simp add: write_loop.simps [of parse buf])
    next
      case (Return u this')
      with line have "P this'" by simp
      from "1.IH" [OF Some refl Return "1.prems"(1) this] Some Return show ?thesis
        by (simp add: write_loop.simps [of parse buf])
    qed
  qed
qed

subsection \<open>Listeners and collected lines\<close>

lemma consistent_new: "consistent new_GrblStream"
  by (simp add: consistent_def new_GrblStream_def acquire_def)

lemma consistent_acquire: "consistent st \<Longrightarrow> consistent (acquire fn st)"
  by (simp add: consistent_def acquire_def)

lemma consistent_release: "consistent st \<Longrightarrow> consistent (release st)"
  by (simp add: consistent_def release_def acquire_def Let_def split: list.split)

lemma consistent_resolve: "consistent st \<Longrightarrow> consistent (resolve fn st)"
  by (cases fn) (simp_all add: consistent_def)

lemma consistent_call: "consistent st \<Longrightarrow> consistent (after (call st))"
  by (cases "lock_used st") (simp_all add: call_def consistent_resolve)

lemma consistent_ok_onmessage:
  assumes "consistent st"
  shows "consistent (ok_onmessage E k data st)"
proof -
  from assms have d: "distinct (remove1 k (listeners st))"
    and s: "\<forall>j\<in>set (remove1 k (listeners st)). j < noks st"
    by (auto simp: consistent_def dest: notin_set_remove1)
  show ?thesis
  proof (cases "data = ''ok''")
    case True
    with assms d s show ?thesis
      by (auto simp: consistent_def ok_onmessage_def settle_def Let_def)
  next
    case False
    with assms show ?thesis
      by (auto simp: consistent_def ok_onmessage_def settle_def Let_def terminal_def)
  qed
qed

lemma consistent_emit_message:
  "consistent st \<Longrightarrow> consistent (emit_message E data st)"
proof -
  have "consistent s \<Longrightarrow> consistent (fold (\<lambda>k. ok_onmessage E k data) ks s)" for ks s
    by (induction ks arbitrary: s) (simp_all add: consistent_ok_onmessage)
  moreover assume "consistent st"
  then have "consistent (st\<lparr>emitted := emitted st @ [Message data]\<rparr>)"
    by (simp add: consistent_def)
  ultimately show ?thesis by (simp add: emit_message_def)
qed

lemma consistent_ok: "consistent st \<Longrightarrow> consistent (ok n st)"
  by (auto simp: consistent_def ok_def Let_def)

lemma consistent_parse_line:
  "consistent st \<Longrightarrow> consistent (after (parse_line E data st))"
  by (cases "this_parse st"; cases "match_version data")
     (simp_all add: parse_line_def onversion_def onheader_def onmessage_def destroy_def
        consistent_emit_message, simp_all add: consistent_def)

lemma consistent_buffer: "consistent (st\<lparr>this_buffer := b\<rparr>) = consistent st"
  by (simp add: consistent_def)

lemma consistent_write:
  assumes "consistent st"
  shows "consistent (after (GrblStream_write E data st))"
proof -
  have "consistent (after (write_loop (parse_line E) (this_buffer st @ data) st))"
  proof (rule write_loop_invariant)
    show "\<forall>line s. consistent s \<longrightarrow> consistent (after (parse_line E line s))"
      by (simp add: consistent_parse_line)
  qed (rule assms)
  then show ?thesis
    by (cases "write_loop (parse_line E) (this_buffer st @ data) st")
       (simp_all add: GrblStream_write_def write_chunk_def consistent_buffer)
qed

lemma consistent_command:
  assumes "consistent st"
  shows "consistent (command t st)"
proof -
  from assms have "consistent (st\<lparr>calls := (calls st)(ncalls st :=
      \<lparr>cmd = t, granted = False, returned = None\<rparr>), ncalls := Suc (ncalls st)\<rparr>)"
    by (simp add: consistent_def)
  then show ?thesis by (simp add: command_def Let_def consistent_acquire)
qed

lemma consistent_run_job:
  assumes "consistent st"
  shows "consistent (after (run_job E j st))"
proof (cases j)
  case Call
  with assms show ?thesis by (simp add: consistent_call)
next
  case (Then data)
  from assms have "consistent (emit_message E data st)" by (rule consistent_emit_message)
  then have "consistent ((emit_message E data st)\<lparr>this_parse := Onmessage\<rparr>)"
    by (simp add: consistent_def)
  with Then show ?thesis
    by (simp add: header_then_def onmessage_def consistent_release)
next
  case (Resume n)
  from assms have "consistent (st\<lparr>pushed := pushed st @ [cmd (calls st n) @ [LF]],
      emitted := emitted st @ [Issued (cmd (calls st n))]\<rparr>)"
    by (simp add: consistent_def)
  then show ?thesis
    using Resume by (simp add: command_resume_def Let_def consistent_ok)
next
  case (Finish k)
  from assms have "consistent (release st)" by (rule consistent_release)
  then show ?thesis
    using Finish by (simp add: command_finish_def Let_def consistent_def)
qed

lemma consistent_uncaught: "consistent (st\<lparr>uncaught := e\<rparr>) = consistent st"
  by (simp add: consistent_def)

lemma consistent_jobs: "consistent (st\<lparr>jobs := js\<rparr>) = consistent st"
  by (simp add: consistent_def)

lemma consistent_drain_imp:
  assumes "drain E0 st0 = Some st1"
  shows "consistent st0 \<longrightarrow> consistent st1"
proof (rule drain.raw_induct [where P = "\<lambda>E s s'. consistent s \<longrightarrow> consistent s'", OF _ assms])
  fix drain' :: "catalog \<Rightarrow> GrblStream \<Rightarrow> GrblStream option"
  fix E st st'
  assume IH: "\<And>E s y. drain' E s = Some y \<Longrightarrow> consistent s \<longrightarrow> consistent y"
    and body: "(case jobs st of
        [] \<Rightarrow> Some st
      | j # js \<Rightarrow>
          (case run_job E j (st\<lparr>jobs := js\<rparr>) of
             Return x s \<Rightarrow> drain' E s
           | Throw e s \<Rightarrow> Some (s\<lparr>uncaught := Some e\<rparr>))) = Some st'"
  show "consistent st \<longrightarrow> consistent st'"
  proof
    assume st: "consistent st"
    show "consistent st'"
    proof (cases "jobs st")
      case Nil
      with body st show ?thesis by simp
    next
      case (Cons j js)
      from st have c: "consistent (after (run_job E j (st\<lparr>jobs := js\<rparr>)))"
        by (simp add: consistent_run_job consistent_jobs)
      show ?thesis
      proof (cases "run_job E j (st\<lparr>jobs := js\<rparr>)")
        case (Return u s)
        with Cons body have "drain' E s = Some st'" by simp
        moreover from c Return have "consistent s" by simp
        ultimately show ?thesis using IH by blast
      next
        case (Throw e s)
        with Cons body c show ?thesis by (auto simp: consistent_uncaught)
      qed
    qed
  qed
qed

lemma consistent_drain:
  "drain E st = Some st' \<Longrightarrow> consistent st \<Longrightarrow> consistent st'"
  using consistent_drain_imp by blast

lemma consistent_step:
  assumes "step E a st = Some st'" "consistent st"
  shows "consistent st'"
proof (cases "uncaught st \<noteq> None")
  case True
  with assms show ?thesis by (simp add: step_def)
next
  case False
  show ?thesis
  proof (cases a)
    case (Submit t)
    with assms False show ?thesis by (auto simp: step_def consistent_command)
  next
    case (Chunk data)
    from assms(2) have "consistent (after (GrblStream_write E data st))"
      by (rule consistent_write)
    with Chunk assms False show ?thesis
      by (cases "GrblStream_write E data st")
         (auto simp: step_def consistent_uncaught split: if_splits)
  next
    case Idle
    with assms False show ?thesis by (auto simp: step_def dest: consistent_drain)
  qed
qed

lemma consistent_run_from:
  "run_from E as st = Some st' \<Longrightarrow> consistent st \<Longrightarrow> consistent st'"
proof (induction as arbitrary: st)
  case Nil
  then show ?case by simp
next
  case (Cons a as)
  then show ?case
    by (cases "step E a st") (auto dest: consistent_step)
qed

lemma consistent_run: "run E as = Some st \<Longrightarrow> consistent st"
  unfolding run_def by (erule consistent_run_from) (rule consistent_new)


subsection \<open>Pushed chunks\<close>

lemma pushed_still_framed:
  fixes N N' :: nat
  assumes "\<forall>x\<in>set xs. \<exists>n<N. x = cmd (c n) @ [LF]" and "N \<le> N'"
    and "\<forall>n<N. cmd (c' n) = cmd (c n)"
  shows "\<forall>x\<in>set xs. \<exists>n<N'. x = cmd (c' n) @ [LF]"
proof
  fix x
  assume "x \<in> set xs"
  with assms(1) obtain n where "n < N" "x = cmd (c n) @ [LF]" by blast
  with assms(2,3) have "n < N' \<and> x = cmd (c' n) @ [LF]" by simp
  then show "\<exists>n<N'. x = cmd (c' n) @ [LF]" by blast
qed

lemma framed_new: "framed new_GrblStream"
  by (simp add: framed_def new_GrblStream_def acquire_def)

lemma framed_acquire:
  "framed st \<Longrightarrow> (\<forall>n. fn = Cmd n \<longrightarrow> n < ncalls st) \<Longrightarrow> framed (acquire fn st)"
  by (auto simp: framed_def acquire_def)

lemma framed_release:
  assumes "framed st"
  shows "framed (release st)"
proof (cases "lock_queue st")
  case Nil
  with assms show ?thesis by (simp add: framed_def release_def)
next
  case (Cons fn rest)
  from assms Cons have "framed (st\<lparr>lock_used := None, lock_queue := rest\<rparr>)"
    by (simp add: framed_def)
  moreover from assms Cons have "\<forall>n. fn = Cmd n \<longrightarrow> n < ncalls st"
    by (simp add: framed_def)
  ultimately have "framed (acquire fn (st\<lparr>lock_used := None, lock_queue := rest\<rparr>))"
    by (intro framed_acquire) simp_all
  with Cons show ?thesis by (simp add: release_def)
qed

lemma framed_resolve:
  assumes "framed st" and "\<forall>n. fn = Cmd n \<longrightarrow> n < ncalls st"
  shows "framed (resolve fn st)"
proof (cases fn)
  case Boot
  with assms show ?thesis by (auto simp: framed_def)
next
  case (Cmd m)
  from assms(1) have "\<forall>x\<in>set (pushed st). \<exists>n<ncalls st.
      x = cmd (((calls st)(m := (calls st m)\<lparr>granted := True\<rparr>)) n) @ [LF]"
    using pushed_still_framed [of "pushed st" "ncalls st" "calls st" "ncalls st"
        "(calls st)(m := (calls st m)\<lparr>granted := True\<rparr>)"]
    by (simp add: framed_def)
  with assms Cmd show ?thesis
    by (simp add: framed_def del: fun_upd_apply)
qed

lemma framed_call: "framed st \<Longrightarrow> framed (after (call st))"
proof (cases "lock_used st")
  case None
  moreover assume "framed st"
  ultimately show ?thesis by (simp add: call_def)
next
  case (Some fn)
  moreover assume f: "framed st"
  moreover from f Some have "\<forall>n. fn = Cmd n \<longrightarrow> n < ncalls st"
    by (simp add: framed_def)
  ultimately show ?thesis by (simp add: call_def framed_resolve)
qed

lemma framed_ok_onmessage: "framed st \<Longrightarrow> framed (ok_onmessage E k data st)"
  by (auto simp: framed_def ok_onmessage_def settle_def Let_def)

lemma framed_emit_message: "framed st \<Longrightarrow> framed (emit_message E data st)"
proof -
  have "framed s \<Longrightarrow> framed (fold (\<lambda>k. ok_onmessage E k data) ks s)" for ks s
    by (induction ks arbitrary: s) (simp_all add: framed_ok_onmessage)
  moreover assume "framed st"
  then have "framed (st\<lparr>emitted := emitted st @ [Message data]\<rparr>)"
    by (simp add: framed_def)
  ultimately show ?thesis by (simp add: emit_message_def)
qed

lemma framed_parse_line: "framed st \<Longrightarrow> framed (after (parse_line E data st))"
  by (cases "this_parse st"; cases "match_version data")
     (simp_all add: parse_line_def onversion_def onheader_def onmessage_def destroy_def
        framed_emit_message, auto simp: framed_def)

lemma framed_buffer: "framed (st\<lparr>this_buffer := b\<rparr>) = framed st"
  by (simp add: framed_def)

lemma framed_write:
  assumes "framed st"
  shows "framed (after (GrblStream_write E data st))"
proof -
  have "framed (after (write_loop (parse_line E) (this_buffer st @ data) st))"
  proof (rule write_loop_invariant)
    show "\<forall>line s. framed s \<longrightarrow> framed (after (parse_line E line s))"
      by (simp add: framed_parse_line)
  qed (rule assms)
  then show ?thesis
    by (cases "write_loop (parse_line E) (this_buffer st @ data) st")
       (simp_all add: GrblStream_write_def write_chunk_def framed_buffer)
qed

lemma framed_command:
  assumes "framed st"
  shows "framed (command t st)"
proof -
  from assms have "\<forall>x\<in>set (pushed st). \<exists>n<Suc (ncalls st).
      x = cmd (((calls st)(ncalls st := \<lparr>cmd = t, granted = False, returned = None\<rparr>)) n)
        @ [LF]"
    using pushed_still_framed [of "pushed st" "ncalls st" "calls st" "Suc (ncalls st)"
        "(calls st)(ncalls st := \<lparr>cmd = t, granted = False, returned = None\<rparr>)"]
    by (simp add: framed_def)
  with assms have "framed (st\<lparr>calls := (calls st)(ncalls st :=
      \<lparr>cmd = t, granted = False, returned = None\<rparr>), ncalls := Suc (ncalls st)\<rparr>)"
    by (simp add: framed_def less_Suc_eq del: fun_upd_apply)
  then show ?thesis by (simp add: command_def Let_def framed_acquire)
qed

lemma framed_run_job:
  assumes "framed st" and "\<forall>n. j = Resume n \<longrightarrow> n < ncalls st"
  shows "framed (after (run_job E j st))"
proof (cases j)
  case Call
  with assms show ?thesis by (simp add: framed_call)
next
  case (Then data)
  from assms have "framed (emit_message E data st)" by (simp add: framed_emit_message)
  then have "framed ((emit_message E data st)\<lparr>this_parse := Onmessage\<rparr>)"
    by (simp add: framed_def)
  with Then show ?thesis
    by (simp add: header_then_def onmessage_def framed_release)
next
  case (Resume n)
  with assms show ?thesis
    by (auto simp: command_resume_def ok_def Let_def framed_def)
next
  case (Finish k)
  define s where "s = release st"
  define a where "a = awaited_by (oks st k)"
  from assms have f: "framed s" by (simp add: s_def framed_release)
  then have "\<forall>x\<in>set (pushed s). \<exists>n<ncalls s.
      x = cmd (((calls s)(a := (calls s a)\<lparr>returned := outcome (oks st k)\<rparr>)) n) @ [LF]"
    using pushed_still_framed [of "pushed s" "ncalls s" "calls s" "ncalls s"
        "(calls s)(a := (calls s a)\<lparr>returned := outcome (oks st k)\<rparr>)"]
    by (simp add: framed_def)
  with f have "framed (s\<lparr>calls := (calls s)(a := (calls s a)\<lparr>returned := outcome (oks st k)\<rparr>)\<rparr>)"
    by (simp add: framed_def del: fun_upd_apply)
  then show ?thesis
    using Finish by (simp add: command_finish_def Let_def s_def a_def)
qed

lemma framed_drain_imp:
  assumes "drain E0 st0 = Some st1"
  shows "framed st0 \<longrightarrow> framed st1"
proof (rule drain.raw_induct [where P = "\<lambda>E s s'. framed s \<longrightarrow> framed s'", OF _ assms])
  fix drain' :: "catalog \<Rightarrow> GrblStream \<Rightarrow> GrblStream option"
  fix E st st'
  assume IH: "\<And>E s y. drain' E s = Some y \<Longrightarrow> framed s \<longrightarrow> framed y"
    and body: "(case jobs st of
        [] \<Rightarrow> Some st
      | j # js \<Rightarrow>
          (case run_job E j (st\<lparr>jobs := js\<rparr>) of
             Return x s \<Rightarrow> drain' E s
           | Throw e s \<Rightarrow> Some (s\<lparr>uncaught := Some e\<rparr>))) = Some st'"
  show "framed st \<longrightarrow> framed st'"
  proof
    assume st: "framed st"
    show "framed st'"
    proof (cases "jobs st")
      case Nil
      with body st show ?thesis by simp
    next
      case (Cons j js)
      from st Cons have "framed (st\<lparr>jobs := js\<rparr>)"
        and "\<forall>n. j = Resume n \<longrightarrow> n < ncalls (st\<lparr>jobs := js\<rparr>)"
        by (simp_all add: framed_def)
      then have c: "framed (after (run_job E j (st\<lparr>jobs := js\<rparr>)))"
        by (rule framed_run_job)
      show ?thesis
      proof (cases "run_job E j (st\<lparr>jobs := js\<rparr>)")
        case (Return u s)
        with Cons body have "drain' E s = Some st'" by simp
        moreover from c Return have "framed s" by simp
        ultimately show ?thesis using IH by blast
      next
        case (Throw e s)
        with Cons body c show ?thesis by (auto simp: framed_def)
      qed
    qed
  qed
qed

lemma framed_step:
  assumes "step E a st = Some st'" "framed st"
  shows "framed st'"
proof (cases "uncaught st \<noteq> None")
  case True
  with assms show ?thesis by (simp add: step_def)
next
  case False
  show ?thesis
  proof (cases a)
    case (Submit t)
    with assms False show ?thesis by (auto simp: step_def framed_command)
  next
    case (Chunk data)
    from assms(2) have "framed (after (GrblStream_write E data st))"
      by (rule framed_write)
    with Chunk assms False show ?thesis
      by (cases "GrblStream_write E data st")
         (auto simp: step_def framed_def split: if_splits)
  next
    case Idle
    with assms False show ?thesis
      using framed_drain_imp [of E st st'] by (simp add: step_def)
  qed
qed

lemma framed_run_from:
  "run_from E as st = Some st' \<Longrightarrow> framed st \<Longrightarrow> framed st'"
proof (induction as arbitrary: st)
  case Nil
  then show ?case by simp
next
  case (Cons a as)
  then show ?case
    by (cases "step E a st") (auto dest: framed_step)
qed

lemma framed_run: "run E as = Some st \<Longrightarrow> framed st"
  unfolding run_def by (erule framed_run_from) (rule framed_new)

subsection \<open>The queued callbacks run to their end\<close>

text \<open>
  Every callback lowers the bound \<open>potential\<close>, so \<open>drain\<close> returns, and so does every
  session.
\<close>

lemma filter_one_less:
  "k \<in> set xs \<Longrightarrow> Q k \<Longrightarrow> length (filter (\<lambda>j. j \<noteq> k \<and> Q j) xs) < length (filter Q xs)"
proof (induction xs)
  case Nil
  then show ?case by simp
next
  case (Cons x xs)
  have le: "length (filter (\<lambda>j. j \<noteq> k \<and> Q j) xs) \<le> length (filter Q xs)"
    by (induction xs) auto
  show ?case
  proof (cases "x = k")
    case True
    with Cons.prems le show ?thesis by simp
  next
    case False
    with Cons show ?thesis by auto
  qed
qed

lemma filter_remove1_le: "length (filter Q (remove1 k xs)) \<le> length (filter Q xs)"
  by (induction xs) auto

lemma potential_acquire: "potential (acquire fn st) \<le> potential st + 1"
  by (simp add: potential_def acquire_def)

lemma potential_release: "potential (release st) \<le> potential st + 1"
  by (cases "lock_queue st") (simp_all add: potential_def release_def acquire_def)

lemma potential_resolve:
  assumes "\<forall>n. fn = Cmd n \<longrightarrow> n < ncalls st"
  shows "potential (resolve fn st) \<le> potential st"
proof (cases fn)
  case Boot
  then show ?thesis by (simp add: potential_def o_def sum_list_triv)
next
  case (Cmd n)
  show ?thesis
  proof (cases "granted (calls st n)")
    case True
    with Cmd show ?thesis by simp
  next
    case False
    from assms Cmd have "n \<in> set [0..<ncalls st]" by simp
    from filter_one_less [OF this, of "\<lambda>m. \<not> granted (calls st m)"] False
    have "length (filter (\<lambda>m. m \<noteq> n \<and> \<not> granted (calls st m)) [0..<ncalls st])
      < length (filter (\<lambda>m. \<not> granted (calls st m)) [0..<ncalls st])"
      by simp
    moreover have "filter (\<lambda>m. \<not> granted (((calls st)(n := (calls st n)\<lparr>granted := True\<rparr>)) m))
        [0..<ncalls st]
      = filter (\<lambda>m. m \<noteq> n \<and> \<not> granted (calls st m)) [0..<ncalls st]"
      by (rule filter_cong) auto
    ultimately show ?thesis
      using Cmd False by (simp add: potential_def del: fun_upd_apply)
  qed
qed

lemma potential_ok_onmessage:
  assumes "k \<in> set (listeners st)"
  shows "potential (ok_onmessage E k data st) \<le> potential st"
proof -
  let ?Q = "\<lambda>j. outcome (oks st j) = None"
  have settled: "potential (st\<lparr>oks := (oks st)(k := (oks st k)\<lparr>outcome := Some r\<rparr>),
        jobs := jobs st @ [Finish k], listeners := ls\<rparr>) \<le> potential st"
    if "outcome (oks st k) = None"
      and "ls = listeners st \<or> ls = remove1 k (listeners st)" for r ls
  proof -
    have eq: "filter (\<lambda>j. outcome (((oks st)(k := (oks st k)\<lparr>outcome := Some r\<rparr>)) j) = None) xs
      = filter (\<lambda>j. j \<noteq> k \<and> ?Q j) xs" for xs
      by (rule filter_cong) auto
    have "length (filter (\<lambda>j. j \<noteq> k \<and> ?Q j) ls)
      \<le> length (filter (\<lambda>j. j \<noteq> k \<and> ?Q j) (listeners st))"
      using that(2) by (auto simp: filter_remove1_le)
    also have "\<dots> < length (filter ?Q (listeners st))"
      using assms that(1) by (rule filter_one_less)
    finally show ?thesis
      by (simp add: potential_def eq del: fun_upd_apply)
  qed
  have unsettled: "potential (st\<lparr>listeners := remove1 k (listeners st)\<rparr>) \<le> potential st"
    by (simp add: potential_def filter_remove1_le)
  have collected: "potential (st\<lparr>oks := (oks st)(k := (oks st k)\<lparr>lines := ls\<rparr>)\<rparr>)
    = potential st" for ls
  proof -
    have "filter (\<lambda>j. outcome (((oks st)(k := (oks st k)\<lparr>lines := ls\<rparr>)) j) = None) xs
      = filter ?Q xs" for xs
      by (rule filter_cong) auto
    then show ?thesis by (simp add: potential_def del: fun_upd_apply)
  qed
  show ?thesis
  proof (cases "outcome (oks st k) = None")
    case True
    with settled [where ls = "listeners st"] settled [where ls = "remove1 k (listeners st)"]
      collected
    show ?thesis
      by (simp add: ok_onmessage_def settle_def Let_def del: fun_upd_apply)
  next
    case False
    with unsettled collected show ?thesis
      by (auto simp: ok_onmessage_def settle_def Let_def simp del: fun_upd_apply)
  qed
qed

lemma potential_fold_ok_onmessage:
  "distinct ks \<Longrightarrow> set ks \<subseteq> set (listeners s) \<Longrightarrow>
   potential (fold (\<lambda>k. ok_onmessage E k data) ks s) \<le> potential s"
proof (induction ks arbitrary: s)
  case Nil
  then show ?case by simp
next
  case (Cons k ks)
  from Cons.prems have k: "k \<in> set (listeners s)" "k \<notin> set ks" "distinct ks"
    "set ks \<subseteq> set (listeners s)" by auto
  have "set ks \<subseteq> set (listeners (ok_onmessage E k data s))"
  proof
    fix x
    assume "x \<in> set ks"
    with k(2,4) have "x \<noteq> k" "x \<in> set (listeners s)" by auto
    then show "x \<in> set (listeners (ok_onmessage E k data s))"
      by (simp add: ok_onmessage_listeners in_set_remove1)
  qed
  from Cons.IH [OF k(3) this] potential_ok_onmessage [OF k(1), of E data]
  show ?case by simp
qed

lemma potential_emit_message:
  assumes "distinct (listeners st)"
  shows "potential (emit_message E data st) \<le> potential st"
proof -
  have "potential (st\<lparr>emitted := emitted st @ [Message data]\<rparr>) = potential st"
    by (simp add: potential_def)
  with potential_fold_ok_onmessage [of "listeners st"
      "st\<lparr>emitted := emitted st @ [Message data]\<rparr>" E data] assms
  show ?thesis by (simp add: emit_message_def)
qed

lemma potential_command_resume:
  assumes "\<forall>k\<in>set (listeners st). k < noks st"
  shows "potential (command_resume n st) = potential st + 2"
proof -
  have eq: "filter (\<lambda>j. outcome (((oks st)(noks st := \<lparr>lines = [], outcome = None, awaited_by = n\<rparr>)) j)
      = None) (listeners st)
    = filter (\<lambda>j. outcome (oks st j) = None) (listeners st)"
    using assms by (intro filter_cong) auto
  have new: "outcome (((oks st)(noks st := \<lparr>lines = [], outcome = None, awaited_by = n\<rparr>))
    (noks st)) = None"
    by simp
  show ?thesis
    by (simp add: potential_def command_resume_def ok_def Let_def eq new del: fun_upd_apply)
qed

lemma potential_command_finish: "potential (command_finish k st) \<le> potential st + 1"
proof -
  have eq: "filter (\<lambda>m. \<not> granted (((calls s)(a := (calls s a)\<lparr>returned := r\<rparr>)) m)) xs
    = filter (\<lambda>m. \<not> granted (calls s m)) xs" for s :: GrblStream and a r xs
    by (rule filter_cong) auto
  have "potential (s\<lparr>calls := (calls s)(a := (calls s a)\<lparr>returned := r\<rparr>)\<rparr>) = potential s"
    for s :: GrblStream and a r
    by (simp add: potential_def eq del: fun_upd_apply)
  with potential_release [of st] show ?thesis
    by (simp add: command_finish_def Let_def del: fun_upd_apply)
qed

lemma potential_run_job:
  assumes "consistent st" and "framed st" and "jobs st = j # js"
    and "run_job E j (st\<lparr>jobs := js\<rparr>) = Return u s"
  shows "potential s < potential st"
proof -
  let ?st = "st\<lparr>jobs := js\<rparr>"
  from assms(3) have p: "potential ?st + weight j = potential st"
    by (simp add: potential_def)
  show ?thesis
  proof (cases j)
    case Call
    with assms(4) obtain fn where fn: "lock_used st = Some fn" "s = resolve fn ?st"
      by (auto simp: call_def split: option.splits)
    from assms(2) fn(1) have "\<forall>n. fn = Cmd n \<longrightarrow> n < ncalls ?st"
      by (simp add: framed_def)
    from potential_resolve [OF this] fn(2) p Call show ?thesis by simp
  next
    case (Then data)
    from assms(1) have "potential (emit_message E data ?st) \<le> potential ?st"
      by (intro potential_emit_message) (simp add: consistent_def)
    then have "potential ((emit_message E data ?st)\<lparr>this_parse := Onmessage\<rparr>) \<le> potential ?st"
      by (simp add: potential_def)
    with potential_release [of "(emit_message E data ?st)\<lparr>this_parse := Onmessage\<rparr>"]
      assms(4) p Then
    show ?thesis by (auto simp: header_then_def onmessage_def)
  next
    case (Resume n)
    from assms(1) have "\<forall>k\<in>set (listeners ?st). k < noks ?st"
      by (simp add: consistent_def)
    from potential_command_resume [OF this, of n] assms(4) p Resume show ?thesis by auto
  next
    case (Finish k)
    with potential_command_finish [of k ?st] assms(4) p show ?thesis by auto
  qed
qed

lemma drain_returns:
  "consistent st \<Longrightarrow> framed st \<Longrightarrow> \<exists>st'. drain E st = Some st'"
proof (induction "potential st" arbitrary: st rule: less_induct)
  case less
  show ?case
  proof (cases "jobs st")
    case Nil
    then show ?thesis by (subst drain.simps) simp
  next
    case (Cons j js)
    show ?thesis
    proof (cases "run_job E j (st\<lparr>jobs := js\<rparr>)")
      case (Throw e s)
      with Cons show ?thesis by (subst drain.simps) simp
    next
      case (Return u s)
      from less.prems Cons Return have "potential s < potential st"
        by (rule potential_run_job)
      moreover from less.prems(1) have "consistent (after (run_job E j (st\<lparr>jobs := js\<rparr>)))"
        by (simp add: consistent_run_job consistent_jobs)
      moreover from less.prems(2) Cons have "framed (after (run_job E j (st\<lparr>jobs := js\<rparr>)))"
        by (intro framed_run_job) (simp_all add: framed_def)
      ultimately obtain st' where "drain E s = Some st'"
        using less.hyps [of s] Return by auto
      with Cons Return show ?thesis by (subst drain.simps) simp
    qed
  qed
qed

lemma step_returns:
  "consistent st \<Longrightarrow> framed st \<Longrightarrow> \<exists>st'. step E a st = Some st'"
  by (cases a) (auto simp: step_def drain_returns split: completion.splits)

lemma run_from_returns:
  "consistent st \<Longrightarrow> framed st \<Longrightarrow> \<exists>st'. run_from E as st = Some st'"
proof (induction as arbitrary: st)
  case Nil
  then show ?case by simp
next
  case (Cons a as)
  from step_returns [OF Cons.prems, of E a] obtain s where s: "step E a st = Some s" ..
  with Cons.prems have "consistent s" "framed s"
    by (auto dest: consistent_step framed_step)
  from Cons.IH [OF this] s show ?case by simp
qed

lemma run_returns: "\<exists>st. run E as = Some st"
  unfolding run_def by (rule run_from_returns) (rule consistent_new, rule framed_new)


section \<open>The order of commands in steady state\<close>

text \<open>
  Once the stream has booted and the lock is in one of the five situations of \<open>ordered\<close>,
  every call of \<open>command\<close>, every message and every queued callback leads to one of them
  again. So the commands are written in call order, each one only after the response of
  the one before is settled.
\<close>

lemma ok_onmessage_frame:
  "lock_used (ok_onmessage E k data st) = lock_used st \<and>
   lock_queue (ok_onmessage E k data st) = lock_queue st \<and>
   pushed (ok_onmessage E k data st) = pushed st \<and>
   calls (ok_onmessage E k data st) = calls st \<and>
   ncalls (ok_onmessage E k data st) = ncalls st \<and>
   noks (ok_onmessage E k data st) = noks st \<and>
   this_parse (ok_onmessage E k data st) = this_parse st \<and>
   awaited_by (oks (ok_onmessage E k data st) j) = awaited_by (oks st j) \<and>
   (outcome (oks st j) \<noteq> None \<longrightarrow>
      outcome (oks (ok_onmessage E k data st) j) = outcome (oks st j))"
  by (simp add: ok_onmessage_def settle_def Let_def)

lemma fold_ok_onmessage_frame:
  "lock_used (fold (\<lambda>k. ok_onmessage E k data) ks st) = lock_used st \<and>
   lock_queue (fold (\<lambda>k. ok_onmessage E k data) ks st) = lock_queue st \<and>
   pushed (fold (\<lambda>k. ok_onmessage E k data) ks st) = pushed st \<and>
   calls (fold (\<lambda>k. ok_onmessage E k data) ks st) = calls st \<and>
   ncalls (fold (\<lambda>k. ok_onmessage E k data) ks st) = ncalls st \<and>
   noks (fold (\<lambda>k. ok_onmessage E k data) ks st) = noks st \<and>
   this_parse (fold (\<lambda>k. ok_onmessage E k data) ks st) = this_parse st \<and>
   awaited_by (oks (fold (\<lambda>k. ok_onmessage E k data) ks st) j) = awaited_by (oks st j) \<and>
   (outcome (oks st j) \<noteq> None \<longrightarrow>
      outcome (oks (fold (\<lambda>k. ok_onmessage E k data) ks st) j) = outcome (oks st j))"
proof (induction ks arbitrary: st)
  case Nil
  then show ?case by simp
next
  case (Cons k ks)
  from Cons.IH [of "ok_onmessage E k data st"] ok_onmessage_frame [of E k data st j]
  show ?case by auto
qed

lemma emit_message_frame:
  "lock_used (emit_message E data st) = lock_used st \<and>
   lock_queue (emit_message E data st) = lock_queue st \<and>
   pushed (emit_message E data st) = pushed st \<and>
   calls (emit_message E data st) = calls st \<and>
   ncalls (emit_message E data st) = ncalls st \<and>
   noks (emit_message E data st) = noks st \<and>
   this_parse (emit_message E data st) = this_parse st \<and>
   awaited_by (oks (emit_message E data st) j) = awaited_by (oks st j) \<and>
   (outcome (oks st j) \<noteq> None \<longrightarrow>
      outcome (oks (emit_message E data st) j) = outcome (oks st j))"
  using fold_ok_onmessage_frame [of E data "listeners st"
      "st\<lparr>emitted := emitted st @ [Message data]\<rparr>" j]
  by (simp add: emit_message_def)

lemma fold_ok_onmessage_single:
  assumes "\<forall>j\<in>set ks. j \<noteq> k \<longrightarrow> outcome (oks s j) \<noteq> None"
  shows "jobs (fold (\<lambda>j. ok_onmessage E j data) ks s) =
      jobs s @ (if terminal data \<and> k \<in> set ks \<and> outcome (oks s k) = None
                then [Finish k] else []) \<and>
    (outcome (oks (fold (\<lambda>j. ok_onmessage E j data) ks s) k) = None \<longleftrightarrow>
      outcome (oks s k) = None \<and> \<not> (terminal data \<and> k \<in> set ks))"
  using assms
proof (induction ks arbitrary: s)
  case Nil
  then show ?case by simp
next
  case (Cons j ks)
  let ?s = "ok_onmessage E j data s"
  have rest: "\<forall>i\<in>set ks. i \<noteq> k \<longrightarrow> outcome (oks ?s i) \<noteq> None"
    using Cons.prems ok_onmessage_frame [of E j data s] by auto
  note IH = Cons.IH [OF rest]
  show ?case
  proof (cases "j = k")
    case True
    then show ?thesis
      using IH by (auto simp: ok_onmessage_jobs ok_onmessage_own terminal_def)
  next
    case False
    with Cons.prems have "outcome (oks s j) \<noteq> None" by simp
    with False show ?thesis
      using IH by (auto simp: ok_onmessage_jobs ok_onmessage_other)
  qed
qed

lemma emit_message_single:
  assumes "\<forall>j\<in>set (listeners st). j \<noteq> k \<longrightarrow> outcome (oks st j) \<noteq> None"
  shows "jobs (emit_message E data st) =
      jobs st @ (if terminal data \<and> k \<in> set (listeners st) \<and> outcome (oks st k) = None
                 then [Finish k] else []) \<and>
    (outcome (oks (emit_message E data st) k) = None \<longleftrightarrow>
      outcome (oks st k) = None \<and> \<not> (terminal data \<and> k \<in> set (listeners st)))"
  using fold_ok_onmessage_single [of "listeners st" k
      "st\<lparr>emitted := emitted st @ [Message data]\<rparr>" E data] assms
  by (simp add: emit_message_def)


lemma settled_before_emit:
  "settled_before st c \<Longrightarrow> settled_before (emit_message E data st) c"
  unfolding settled_before_def
  using emit_message_frame [of E data st] by (metis (no_types, lifting))

lemma quiet_emit: "quiet st \<Longrightarrow> quiet (emit_message E data st)"
proof -
  assume q: "quiet st"
  have "set (listeners (emit_message E data st)) \<subseteq> set (listeners st)"
    by (simp add: emit_message_listeners)
  with q show ?thesis
    unfolding quiet_def using emit_message_frame [of E data st] by (metis subsetD)
qed

lemma written_emit: "written st r \<Longrightarrow> written (emit_message E data st) r"
  using emit_message_frame [of E data st] by (simp add: written_def)

lemma holding_emit: "holding c st \<Longrightarrow> holding c (emit_message E data st)"
  using emit_message_frame [of E data st] by (simp add: holding_def settled_before_emit)

lemma jobs_emit_quiet: "quiet st \<Longrightarrow> jobs (emit_message E data st) = jobs st"
  using emit_message_single [of st 0 E data] by (auto simp: quiet_def)

lemma ordered_emit:
  assumes "ordered st"
  shows "ordered (emit_message E data st)"
proof -
  let ?st = "emit_message E data st"
  from assms have p: "this_parse ?st = Onmessage"
    using emit_message_frame [of E data st] by (simp add: ordered_def)
  from assms have l: "\<forall>k\<in>set (listeners ?st). k < noks ?st"
    using emit_message_frame [of E data st]
    by (auto simp: ordered_def emit_message_listeners)
  from assms consider "resting st" | c where "granting c st" | c where "resuming c st"
    | c k where "listening c k st" | c k where "finishing c k st"
    by (auto simp: ordered_def)
  then have "resting ?st \<or>
      (\<exists>c. granting c ?st \<or> resuming c ?st \<or> (\<exists>k. listening c k ?st \<or> finishing c k ?st))"
  proof cases
    case 1
    then have "resting ?st"
      using emit_message_frame [of E data st]
      by (simp add: resting_def quiet_emit written_emit settled_before_emit jobs_emit_quiet)
    then show ?thesis by simp
  next
    case (2 c)
    then have "granting c ?st"
      using emit_message_frame [of E data st]
      by (simp add: granting_def quiet_emit written_emit holding_emit jobs_emit_quiet)
    then show ?thesis by blast
  next
    case (3 c)
    then have "resuming c ?st"
      by (simp add: resuming_def quiet_emit written_emit holding_emit jobs_emit_quiet)
    then show ?thesis by blast
  next
    case (4 c k)
    then have others: "\<forall>j\<in>set (listeners st). j \<noteq> k \<longrightarrow> outcome (oks st j) \<noteq> None"
      by (simp add: listening_def)
    note single = emit_message_single [OF others, of E data]
    note frame = emit_message_frame [of E data st]
    have sub: "set (listeners ?st) \<subseteq> set (listeners st)"
      by (simp add: emit_message_listeners)
    have others': "\<forall>j\<in>set (listeners ?st). j \<noteq> k \<longrightarrow> outcome (oks ?st j) \<noteq> None"
      using others sub frame by (metis subsetD)
    show ?thesis
    proof (cases "outcome (oks ?st k) = None")
      case True
      with 4 single frame others' have "listening c k ?st"
        by (auto simp: listening_def holding_emit written_emit)
      then show ?thesis by blast
    next
      case False
      with 4 single have j: "jobs ?st = [Finish k]"
        by (auto simp: listening_def split: if_splits)
      from False others' have "quiet ?st" by (auto simp: quiet_def)
      with 4 j False frame have "finishing c k ?st"
        by (simp add: finishing_def listening_def holding_emit written_emit)
      then show ?thesis by blast
    qed
  next
    case (5 c k)
    then have "finishing c k ?st"
      using emit_message_frame [of E data st]
      by (simp add: finishing_def quiet_emit written_emit holding_emit jobs_emit_quiet)
    then show ?thesis by blast
  qed
  with p l show ?thesis by (simp add: ordered_def)
qed


lemma written_calls:
  assumes "written st r" and "pushed s = pushed st"
    and "\<forall>m<r. cmd (calls s m) = cmd (calls st m)"
  shows "written s r"
  using assms by (simp add: written_def)

lemma settled_before_oks:
  assumes "settled_before st c" and "noks st \<le> noks s"
    and "\<forall>k<noks st. oks s k = oks st k"
  shows "settled_before s c"
  unfolding settled_before_def
proof (intro allI impI)
  fix n
  assume "n < c"
  with assms(1) obtain k where "k < noks st" "awaited_by (oks st k) = n"
    "outcome (oks st k) \<noteq> None"
    unfolding settled_before_def by blast
  with assms(2,3) have "k < noks s \<and> awaited_by (oks s k) = n \<and> outcome (oks s k) \<noteq> None"
    by simp
  then show "\<exists>k<noks s. awaited_by (oks s k) = n \<and> outcome (oks s k) \<noteq> None" by blast
qed

lemma settled_before_Suc:
  assumes "settled_before st c" and "k < noks st" and "awaited_by (oks st k) = c"
    and "outcome (oks st k) \<noteq> None"
  shows "settled_before st (Suc c)"
  using assms unfolding settled_before_def by (metis less_Suc_eq)

lemma holding_command:
  assumes "holding c st"
  shows "holding c (command t st)"
proof -
  from assms have c: "c < ncalls st" and u: "lock_used st = Some (Cmd c)"
    and q: "lock_queue st = map Cmd [Suc c..<ncalls st]"
    and s: "settled_before st c"
    and g: "\<forall>n. c < n \<and> n < ncalls st \<longrightarrow> \<not> granted (calls st n)"
    by (simp_all add: holding_def)
  from c have "[Suc c..<Suc (ncalls st)] = [Suc c..<ncalls st] @ [ncalls st]"
    by simp
  with q have q': "lock_queue (command t st) = map Cmd [Suc c..<ncalls (command t st)]"
    using u by (simp add: command_def acquire_def Let_def)
  from s have "settled_before (command t st) c"
    by (rule settled_before_oks) (simp_all add: command_def acquire_def Let_def)
  moreover from g have "\<forall>n. c < n \<and> n < ncalls (command t st)
    \<longrightarrow> \<not> granted (calls (command t st) n)"
    using u by (auto simp: command_def acquire_def Let_def less_Suc_eq)
  ultimately show ?thesis
    using c u q' by (simp add: holding_def) (simp add: command_def acquire_def Let_def)
qed

lemma command_frame:
  assumes "lock_used st \<noteq> None"
  shows "jobs (command t st) = jobs st \<and> listeners (command t st) = listeners st \<and>
    oks (command t st) = oks st \<and> noks (command t st) = noks st \<and>
    pushed (command t st) = pushed st \<and> this_parse (command t st) = this_parse st \<and>
    (\<forall>m<ncalls st. calls (command t st) m = calls st m)"
  using assms by (simp add: command_def acquire_def Let_def)

lemma ordered_command:
  assumes "ordered st"
  shows "ordered (command t st)"
proof -
  let ?st = "command t st"
  from assms have p: "this_parse ?st = Onmessage"
    by (simp add: ordered_def command_def acquire_def Let_def)
  from assms have l: "\<forall>k\<in>set (listeners ?st). k < noks ?st"
    by (simp add: ordered_def command_def acquire_def Let_def)
  from assms consider "resting st" | c where "granting c st" | c where "resuming c st"
    | c k where "listening c k st" | c k where "finishing c k st"
    by (auto simp: ordered_def)
  then have "resting ?st \<or>
      (\<exists>c. granting c ?st \<or> resuming c ?st \<or> (\<exists>k. listening c k ?st \<or> finishing c k ?st))"
  proof cases
    case 1
    then have u: "lock_used st = None" and q: "lock_queue st = []" and j: "jobs st = []"
      and qu: "quiet st" and w: "written st (ncalls st)"
      and s: "settled_before st (ncalls st)"
      by (simp_all add: resting_def)
    have "settled_before ?st (ncalls st)"
      using s by (rule settled_before_oks) (simp_all add: command_def acquire_def Let_def)
    moreover have "written ?st (ncalls st)"
      using w by (rule written_calls) (simp_all add: command_def acquire_def Let_def)
    moreover have "quiet ?st"
      using qu by (simp add: quiet_def command_def acquire_def Let_def)
    ultimately have "granting (ncalls st) ?st"
      using u q j
      by (simp add: granting_def holding_def) (simp add: command_def acquire_def Let_def)
    then show ?thesis by blast
  next
    case (2 c)
    then have u: "lock_used st \<noteq> None" and c: "c < ncalls st"
      by (simp_all add: granting_def holding_def)
    note f = command_frame [OF u, of t]
    from 2 have "written st c" by (simp add: granting_def)
    then have "written ?st c"
      by (rule written_calls) (use f c in simp_all)
    with 2 f c have "granting c ?st"
      by (simp add: granting_def holding_command quiet_def)
    then show ?thesis by blast
  next
    case (3 c)
    then have u: "lock_used st \<noteq> None" and c: "c < ncalls st"
      by (simp_all add: resuming_def holding_def)
    note f = command_frame [OF u, of t]
    from 3 have "written st c" by (simp add: resuming_def)
    then have "written ?st c"
      by (rule written_calls) (use f c in simp_all)
    with 3 f c have "resuming c ?st"
      by (simp add: resuming_def holding_command quiet_def)
    then show ?thesis by blast
  next
    case (4 c k)
    then have u: "lock_used st \<noteq> None" and c: "c < ncalls st"
      by (simp_all add: listening_def holding_def)
    note f = command_frame [OF u, of t]
    from 4 have "written st (Suc c)" by (simp add: listening_def)
    then have "written ?st (Suc c)"
      by (rule written_calls) (use f c in simp_all)
    with 4 f c have "listening c k ?st"
      by (simp add: listening_def holding_command)
    then show ?thesis by blast
  next
    case (5 c k)
    then have u: "lock_used st \<noteq> None" and c: "c < ncalls st"
      by (simp_all add: finishing_def holding_def)
    note f = command_frame [OF u, of t]
    from 5 have "written st (Suc c)" by (simp add: finishing_def)
    then have "written ?st (Suc c)"
      by (rule written_calls) (use f c in simp_all)
    with 5 f c have "finishing c k ?st"
      by (simp add: finishing_def holding_command quiet_def)
    then show ?thesis by blast
  qed
  with p l show ?thesis by (simp add: ordered_def)
qed


lemma ordered_call:
  assumes "granting c st"
  shows "resuming c (after (call (st\<lparr>jobs := []\<rparr>)))"
proof -
  let ?s = "st\<lparr>jobs := [Resume c], calls := (calls st)(c := (calls st c)\<lparr>granted := True\<rparr>)\<rparr>"
  from assms have h: "holding c st" and g: "\<not> granted (calls st c)" and q: "quiet st"
    and w: "written st c"
    by (simp_all add: granting_def)
  from h g have eq: "after (call (st\<lparr>jobs := []\<rparr>)) = ?s"
    by (simp add: call_def holding_def)
  from w have "written ?s c" by (rule written_calls) simp_all
  moreover from h have "settled_before st c" by (simp add: holding_def)
  then have sb: "settled_before ?s c" by (rule settled_before_oks) simp_all
  moreover from h sb have "holding c ?s"
    by (auto simp: holding_def)
  moreover from q have "quiet ?s" by (simp add: quiet_def)
  ultimately show ?thesis unfolding eq by (simp add: resuming_def)
qed

lemma ordered_resume:
  assumes "resuming c st" and "\<forall>k\<in>set (listeners st). k < noks st"
  shows "listening c (noks st) (command_resume c (st\<lparr>jobs := []\<rparr>)) \<and>
    (\<forall>k\<in>set (listeners (command_resume c (st\<lparr>jobs := []\<rparr>))).
       k < noks (command_resume c (st\<lparr>jobs := []\<rparr>)))"
proof -
  let ?s = "command_resume c (st\<lparr>jobs := []\<rparr>)"
  from assms have h: "holding c st" and q: "quiet st" and w: "written st c"
    by (simp_all add: resuming_def)
  have f: "lock_used ?s = lock_used st" "lock_queue ?s = lock_queue st" "calls ?s = calls st"
    "ncalls ?s = ncalls st" "noks ?s = Suc (noks st)" "jobs ?s = []"
    "listeners ?s = listeners st @ [noks st]"
    "pushed ?s = pushed st @ [cmd (calls st c) @ [LF]]"
    "oks ?s = (oks st)(noks st := \<lparr>lines = [], outcome = None, awaited_by = c\<rparr>)"
    by (simp_all add: command_resume_def ok_def Let_def)
  from h have "settled_before st c" by (simp add: holding_def)
  then have "settled_before ?s c"
    by (rule settled_before_oks) (simp_all add: f)
  with h have "holding c ?s" by (simp add: holding_def f)
  moreover from w have "written ?s (Suc c)" by (simp add: written_def f)
  moreover from q assms(2)
  have "\<forall>j\<in>set (listeners ?s). j \<noteq> noks st \<longrightarrow> outcome (oks ?s j) \<noteq> None"
    by (auto simp: quiet_def f)
  ultimately have "listening c (noks st) ?s"
    by (simp add: listening_def f)
  moreover from assms(2) have "\<forall>k\<in>set (listeners ?s). k < noks ?s"
    by (auto simp: f less_Suc_eq)
  ultimately show ?thesis by simp
qed

lemma ordered_finish:
  assumes "finishing c k st"
  shows "resting (command_finish k (st\<lparr>jobs := []\<rparr>)) \<or>
    granting (Suc c) (command_finish k (st\<lparr>jobs := []\<rparr>))"
proof -
  let ?s = "command_finish k (st\<lparr>jobs := []\<rparr>)"
  from assms have h: "holding c st" and w: "written st (Suc c)" and k: "k < noks st"
    and a: "awaited_by (oks st k) = c" and o: "outcome (oks st k) \<noteq> None" and q: "quiet st"
    by (simp_all add: finishing_def)
  from h have c: "c < ncalls st" and u: "lock_used st = Some (Cmd c)"
    and lq: "lock_queue st = map Cmd [Suc c..<ncalls st]" and sb: "settled_before st c"
    and g: "\<forall>n. c < n \<and> n < ncalls st \<longrightarrow> \<not> granted (calls st n)"
    by (simp_all add: holding_def)
  from sb k a o have sb': "settled_before st (Suc c)" by (rule settled_before_Suc)
  have common: "oks ?s = oks st" "noks ?s = noks st" "listeners ?s = listeners st"
    "pushed ?s = pushed st" "ncalls ?s = ncalls st"
    "\<forall>m. cmd (calls ?s m) = cmd (calls st m)"
    "\<forall>m. granted (calls ?s m) = granted (calls st m)"
    by (cases "lock_queue st"; simp add: command_finish_def release_def acquire_def Let_def)+
  from sb' have s1: "settled_before ?s (Suc c)"
    by (rule settled_before_oks) (simp_all add: common)
  from w have w1: "written ?s (Suc c)"
    by (rule written_calls) (simp_all add: common)
  from q have q1: "quiet ?s" by (simp add: quiet_def common)
  show ?thesis
  proof (cases "Suc c = ncalls st")
    case True
    with lq have "lock_queue st = []" by simp
    then have "lock_used ?s = None" "lock_queue ?s = []" "jobs ?s = []"
      by (simp_all add: command_finish_def release_def Let_def)
    with s1 w1 q1 True have "resting ?s"
      by (simp add: resting_def common)
    then show ?thesis ..
  next
    case False
    with c have lt: "Suc c < ncalls st" by simp
    then have "[Suc c..<ncalls st] = Suc c # [Suc (Suc c)..<ncalls st]"
      by (simp add: upt_conv_Cons)
    with lq have lq': "lock_queue st = Cmd (Suc c) # map Cmd [Suc (Suc c)..<ncalls st]"
      by simp
    then have "lock_used ?s = Some (Cmd (Suc c))"
      "lock_queue ?s = map Cmd [Suc (Suc c)..<ncalls st]" "jobs ?s = [Call]"
      by (simp_all add: command_finish_def release_def acquire_def Let_def)
    with s1 w1 q1 lt g have "granting (Suc c) ?s"
      by (simp add: granting_def holding_def common)
    then show ?thesis ..
  qed
qed

lemma ordered_run_job:
  assumes "ordered st" and "jobs st = j # js"
  shows "ordered (after (run_job E j (st\<lparr>jobs := js\<rparr>)))"
proof -
  from assms(1) have p: "this_parse st = Onmessage"
    and l: "\<forall>k\<in>set (listeners st). k < noks st"
    by (simp_all add: ordered_def)
  from assms consider c where "granting c st" "j = Call" "js = []"
    | c where "resuming c st" "j = Resume c" "js = []"
    | c k where "finishing c k st" "j = Finish k" "js = []"
    by (auto simp: ordered_def resting_def granting_def resuming_def listening_def
        finishing_def)
  then show ?thesis
  proof cases
    case (1 c)
    from ordered_call [OF 1(1)] have r: "resuming c (after (call (st\<lparr>jobs := []\<rparr>)))" .
    from 1(1) have "after (call (st\<lparr>jobs := []\<rparr>)) =
      st\<lparr>jobs := [Resume c], calls := (calls st)(c := (calls st c)\<lparr>granted := True\<rparr>)\<rparr>"
      by (simp add: call_def granting_def holding_def)
    with p l have "this_parse (after (call (st\<lparr>jobs := []\<rparr>))) = Onmessage"
      "\<forall>k\<in>set (listeners (after (call (st\<lparr>jobs := []\<rparr>)))).
         k < noks (after (call (st\<lparr>jobs := []\<rparr>)))"
      by simp_all
    with r 1 show ?thesis by (auto simp: ordered_def)
  next
    case (2 c)
    from ordered_resume [OF 2(1) l]
    have "listening c (noks st) (command_resume c (st\<lparr>jobs := []\<rparr>))"
      "\<forall>k\<in>set (listeners (command_resume c (st\<lparr>jobs := []\<rparr>))).
         k < noks (command_resume c (st\<lparr>jobs := []\<rparr>))"
      by simp_all
    moreover from p have "this_parse (command_resume c (st\<lparr>jobs := []\<rparr>)) = Onmessage"
      by (simp add: command_resume_def ok_def Let_def)
    ultimately show ?thesis using 2 by (auto simp: ordered_def)
  next
    case (3 c k)
    note ordered_finish [OF 3(1)]
    moreover from p l have "this_parse (command_finish k (st\<lparr>jobs := []\<rparr>)) = Onmessage"
      "\<forall>i\<in>set (listeners (command_finish k (st\<lparr>jobs := []\<rparr>))).
         i < noks (command_finish k (st\<lparr>jobs := []\<rparr>))"
      by (cases "lock_queue st"; simp add: command_finish_def release_def acquire_def Let_def)+
    ultimately show ?thesis using 3 by (auto simp: ordered_def)
  qed
qed


lemma ordered_parse_line: "ordered st \<Longrightarrow> ordered (after (parse_line E data st))"
  by (simp add: parse_line_def ordered_def [of st] onmessage_def ordered_emit)

lemma ordered_buffer: "ordered (st\<lparr>this_buffer := b\<rparr>) = ordered st"
  by (simp add: ordered_def resting_def granting_def resuming_def listening_def
      finishing_def holding_def quiet_def written_def settled_before_def)

lemma ordered_uncaught: "ordered (st\<lparr>uncaught := e\<rparr>) = ordered st"
  by (simp add: ordered_def resting_def granting_def resuming_def listening_def
      finishing_def holding_def quiet_def written_def settled_before_def)

lemma ordered_write:
  assumes "ordered st"
  shows "ordered (after (GrblStream_write E data st))"
proof -
  have "ordered (after (write_loop (parse_line E) (this_buffer st @ data) st))"
  proof (rule write_loop_invariant)
    show "\<forall>line s. ordered s \<longrightarrow> ordered (after (parse_line E line s))"
      by (simp add: ordered_parse_line)
  qed (rule assms)
  then show ?thesis
    by (cases "write_loop (parse_line E) (this_buffer st @ data) st")
       (simp_all add: GrblStream_write_def write_chunk_def ordered_buffer)
qed

lemma ordered_drain_imp:
  assumes "drain E0 st0 = Some st1"
  shows "ordered st0 \<longrightarrow> ordered st1"
proof (rule drain.raw_induct [where P = "\<lambda>E s s'. ordered s \<longrightarrow> ordered s'", OF _ assms])
  fix drain' :: "catalog \<Rightarrow> GrblStream \<Rightarrow> GrblStream option"
  fix E st st'
  assume IH: "\<And>E s y. drain' E s = Some y \<Longrightarrow> ordered s \<longrightarrow> ordered y"
    and body: "(case jobs st of
        [] \<Rightarrow> Some st
      | j # js \<Rightarrow>
          (case run_job E j (st\<lparr>jobs := js\<rparr>) of
             Return x s \<Rightarrow> drain' E s
           | Throw e s \<Rightarrow> Some (s\<lparr>uncaught := Some e\<rparr>))) = Some st'"
  show "ordered st \<longrightarrow> ordered st'"
  proof
    assume st: "ordered st"
    show "ordered st'"
    proof (cases "jobs st")
      case Nil
      with body st show ?thesis by simp
    next
      case (Cons j js)
      from st Cons have c: "ordered (after (run_job E j (st\<lparr>jobs := js\<rparr>)))"
        by (rule ordered_run_job)
      show ?thesis
      proof (cases "run_job E j (st\<lparr>jobs := js\<rparr>)")
        case (Return u s)
        with Cons body have "drain' E s = Some st'" by simp
        moreover from c Return have "ordered s" by simp
        ultimately show ?thesis using IH by blast
      next
        case (Throw e s)
        with Cons body c show ?thesis by (auto simp: ordered_uncaught)
      qed
    qed
  qed
qed

lemma ordered_step:
  assumes "step E a st = Some st'" "ordered st"
  shows "ordered st'"
proof (cases "uncaught st \<noteq> None")
  case True
  with assms show ?thesis by (simp add: step_def)
next
  case False
  show ?thesis
  proof (cases a)
    case (Submit t)
    with assms False show ?thesis by (auto simp: step_def ordered_command)
  next
    case (Chunk data)
    from assms(2) have "ordered (after (GrblStream_write E data st))"
      by (rule ordered_write)
    with Chunk assms False show ?thesis
      by (cases "GrblStream_write E data st")
         (auto simp: step_def ordered_uncaught split: if_splits)
  next
    case Idle
    with assms False show ?thesis
      using ordered_drain_imp [of E st st'] by (simp add: step_def)
  qed
qed

lemma ordered_run_from:
  "run_from E as st = Some st' \<Longrightarrow> ordered st \<Longrightarrow> ordered st'"
proof (induction as arbitrary: st)
  case Nil
  then show ?case by simp
next
  case (Cons a as)
  then show ?case
    by (cases "step E a st") (auto dest: ordered_step)
qed

lemma ordered_booted: "ordered booted"
proof -
  have "this_parse booted = Onmessage \<and> listeners booted = [] \<and> lock_used booted = None \<and>
    lock_queue booted = [] \<and> jobs booted = [] \<and> pushed booted = [] \<and> ncalls booted = 0"
    by code_simp
  then show ?thesis
    by (simp add: ordered_def resting_def quiet_def written_def settled_before_def)
qed

lemma settled_before_less: "settled_before st c \<Longrightarrow> n \<le> c \<Longrightarrow> settled_before st n"
  by (simp add: settled_before_def)

lemma ordered_in_order:
  assumes "ordered st"
  shows "\<exists>r\<le>ncalls st. pushed st = map (\<lambda>n. cmd (calls st n) @ [LF]) [0..<r] \<and>
    (\<forall>n. Suc n < r \<longrightarrow> (\<exists>k<noks st. awaited_by (oks st k) = n \<and> outcome (oks st k) \<noteq> None))"
proof -
  from assms consider "resting st" | c where "granting c st" | c where "resuming c st"
    | c k where "listening c k st" | c k where "finishing c k st"
    by (auto simp: ordered_def)
  then obtain r where r: "r \<le> ncalls st" "written st r" "settled_before st (r - 1)"
  proof cases
    case 1
    then have "written st (ncalls st)" "settled_before st (ncalls st - 1)"
      by (auto simp: resting_def intro: settled_before_less)
    then show ?thesis using that by blast
  next
    case (2 c)
    then have "c \<le> ncalls st" "written st c" "settled_before st (c - 1)"
      by (auto simp: granting_def holding_def intro: settled_before_less)
    then show ?thesis using that by blast
  next
    case (3 c)
    then have "c \<le> ncalls st" "written st c" "settled_before st (c - 1)"
      by (auto simp: resuming_def holding_def intro: settled_before_less)
    then show ?thesis using that by blast
  next
    case (4 c k)
    then have "Suc c \<le> ncalls st" "written st (Suc c)" "settled_before st (Suc c - 1)"
      by (auto simp: listening_def holding_def)
    then show ?thesis using that by blast
  next
    case (5 c k)
    then have "Suc c \<le> ncalls st" "written st (Suc c)" "settled_before st (Suc c - 1)"
      by (auto simp: finishing_def holding_def)
    then show ?thesis using that by blast
  qed
  from r(3) have "\<forall>n. Suc n < r \<longrightarrow>
    (\<exists>k<noks st. awaited_by (oks st k) = n \<and> outcome (oks st k) \<noteq> None)"
    by (auto simp: settled_before_def)
  with r(1,2) show ?thesis by (auto simp: written_def)
qed

lemma commands_in_order_once_booted:
  assumes "run_from E as booted = Some st"
  shows "\<exists>r\<le>ncalls st. pushed st = map (\<lambda>n. cmd (calls st n) @ [LF]) [0..<r] \<and>
    (\<forall>n. Suc n < r \<longrightarrow> (\<exists>k<noks st. awaited_by (oks st k) = n \<and> outcome (oks st k) \<noteq> None))"
  using ordered_run_from [OF assms ordered_booted] by (rule ordered_in_order)


section \<open>Properties of the command correlator\<close>

subsection \<open>Helpers\<close>

lemma command_finish_returned:
  "returned (calls (command_finish k st) (awaited_by (oks st k))) = outcome (oks st k)"
  by (simp add: command_finish_def Let_def)

lemma fromCode_fields:
  "errorCode (fromCode E c) = c \<and>
   (case find (\<lambda>row. row ''Error Code'' = Some c) E of
      Some row \<Rightarrow> errorMessage (fromCode E c) = row ''Error Message'' \<and>
        errorDescription (fromCode E c) = row ''Error Description''
    | None \<Rightarrow> errorMessage (fromCode E c) = None \<and> errorDescription (fromCode E c) = None \<and>
        message (fromCode E c) = ''[undefined] undefined (code: '' @ c @ '')'')"
  by (simp add: fromCode_def find_row_def new_CommandError_def interpolate_def Let_def
      split: option.split)

lemma fold_emit_message_keeps:
  assumes "''ok'' \<notin> set ms" "k \<in> set (listeners s)" "distinct (listeners s)"
  shows "listeners (fold (emit_message E) ms s) = listeners s \<and>
    lines (oks (fold (emit_message E) ms s) k)
      = lines (oks s k) @ filter (\<lambda>m. \<not> prefix ''error:'' m) ms"
  using assms
proof (induction ms arbitrary: s)
  case Nil
  then show ?case by simp
next
  case (Cons m ms)
  from Cons.prems have m: "m \<noteq> ''ok''" and ms: "''ok'' \<notin> set ms" by auto
  from m have ls: "listeners (emit_message E m s) = listeners s"
    by (simp add: emit_message_listeners)
  with Cons.prems have "k \<in> set (listeners (emit_message E m s))"
    "distinct (listeners (emit_message E m s))" by simp_all
  from Cons.IH [OF ms this] ls m Cons.prems(2,3) show ?case
    by (simp add: emit_message_promise ok_onmessage_own)
qed

lemma command_resume_pushed:
  "pushed (command_resume n st) = pushed st @ [cmd (calls st n) @ [LF]]"
  by (simp add: command_resume_def ok_def Let_def)

lemma drain_idle_command:
  assumes "lock_used st = None" "jobs st = []"
  shows "drain E (command t st) =
    Some (command_resume (ncalls st)
      ((command t st)\<lparr>jobs := [],
         calls := (calls (command t st))(ncalls st :=
           (calls (command t st) (ncalls st))\<lparr>granted := True\<rparr>)\<rparr>))"
  using assms
  apply (subst drain.simps)
  apply (simp add: command_def acquire_def call_def Let_def)
  apply (subst drain.simps)
  apply (simp add: command_resume_def ok_def Let_def)
  apply (subst drain.simps)
  apply simp
  done

lemma run_awaiting:
  "run example_error_codes (boot @ [Submit ''$X'', Idle]) = Some awaiting"
proof -
  have "run example_error_codes (boot @ [Submit ''$X'', Idle]) \<noteq> None"
    by code_simp
  then show ?thesis by (auto simp: awaiting_def)
qed

lemma awaiting_facts:
  "0 \<in> set (listeners awaiting) \<and> outcome (oks awaiting 0) = None \<and>
   lines (oks awaiting 0) = []"
  by code_simp

subsection \<open>Writing the command\<close>

text \<open>
  C1, amended. \<open>command(t)\<close> writes the text \<open>t\<close> followed by the single byte LF, and
  nothing else: whenever the body of a call runs past the lock it pushes exactly that; on
  a stream whose lock is free with nothing queued the call gets there; and in every
  session each pushed chunk is the text of one call of \<open>command\<close> followed by LF. The
  terminator is not the two bytes CR LF that delimit the inbound lines.
\<close>

theorem command_writes_text_and_line_feed:
  "pushed (command_resume n st) = pushed st @ [cmd (calls st n) @ [LF]] \<and>
   (lock_used st = None \<and> jobs st = [] \<longrightarrow>
      (\<exists>st'. drain ERROR_CODES (command t st) = Some st' \<and>
         pushed st' = pushed st @ [t @ [LF]])) \<and>
   (run ERROR_CODES as = Some s \<longrightarrow>
      (\<forall>x\<in>set (pushed s). \<exists>m<ncalls s. x = cmd (calls s m) @ [LF]))"
proof (intro conjI impI)
  show "pushed (command_resume n st) = pushed st @ [cmd (calls st n) @ [LF]]"
    by (rule command_resume_pushed)
next
  assume "lock_used st = None \<and> jobs st = []"
  then have "drain ERROR_CODES (command t st) =
    Some (command_resume (ncalls st)
      ((command t st)\<lparr>jobs := [],
         calls := (calls (command t st))(ncalls st :=
           (calls (command t st) (ncalls st))\<lparr>granted := True\<rparr>)\<rparr>))"
    by (simp add: drain_idle_command)
  moreover have "pushed (command_resume (ncalls st)
      ((command t st)\<lparr>jobs := [],
         calls := (calls (command t st))(ncalls st :=
           (calls (command t st) (ncalls st))\<lparr>granted := True\<rparr>)\<rparr>)) = pushed st @ [t @ [LF]]"
    by (simp add: command_resume_pushed) (simp add: command_def acquire_def Let_def)
  ultimately show "\<exists>st'. drain ERROR_CODES (command t st) = Some st' \<and>
         pushed st' = pushed st @ [t @ [LF]]"
    by simp
next
  assume "run ERROR_CODES as = Some s"
  then have "framed s" by (rule framed_run)
  then show "\<forall>x\<in>set (pushed s). \<exists>m<ncalls s. x = cmd (calls s m) @ [LF]"
    by (simp add: framed_def)
qed

theorem command_writes_text_and_line_feed_witness:
  "lock_used booted = None \<and> jobs booted = [] \<and>
   run example_error_codes (boot @ [Submit ''$X'', Idle]) = Some awaiting \<and>
   (\<exists>st'. drain example_error_codes (command ''$X'' booted) = Some st' \<and>
      pushed st' = [''$X'' @ [LF]]) \<and>
   pushed awaiting = [''$X'' @ [LF]] \<and>
   (\<exists>m. m < ncalls awaiting \<and> cmd (calls awaiting m) = ''$X'')"
proof -
  have h: "lock_used booted = None \<and> jobs booted = []" by code_simp
  have p: "pushed booted = []" by code_simp
  have q: "pushed awaiting = [''$X'' @ [LF]]" by code_simp
  from command_writes_text_and_line_feed [of 0 booted example_error_codes "''$X''"
      "boot @ [Submit ''$X'', Idle]" awaiting] h p q run_awaiting
  show ?thesis by (auto simp: eq_commute)
qed

text \<open>
  The terminator is not CR LF: after \<open>command('$X')\<close> the stream has pushed \<open>$X\<close> and LF,
  which differs from \<open>$X\<close> followed by the inbound delimiter.
\<close>

theorem command_terminator_counterexample:
  "map_option pushed (run [] (boot @ [Submit ''$X'', Idle])) = Some [''$X'' @ [LF]] \<and>
   ''$X'' @ [LF] \<noteq> ''$X'' @ DELIMETER"
  by code_simp

subsection \<open>The terminal markers\<close>

text \<open>
  C2, amended. In every session, when the message line of a pending command begins with
  \<open>error:\<close>, the promise of \<open>_ok\<close> is rejected with a CommandError, and \<open>command\<close> throws
  it: its code is the rest of the line, its message and description are the two columns
  of the first catalog row with that code. When no row has the code, both fields are
  \<open>undefined\<close> (not empty strings), and the error's text reads
  \<open>[undefined] undefined (code: <code>)\<close>.
\<close>

theorem error_line_rejects_command:
  assumes "run ERROR_CODES as = Some st" and "k \<in> set (listeners st)"
    and "outcome (oks st k) = None" and "prefix ''error:'' data"
  shows "\<exists>e. outcome (oks (emit_message ERROR_CODES data st) k) = Some (Inl (Command e)) \<and>
    Finish k \<in> set (jobs (emit_message ERROR_CODES data st)) \<and>
    returned (calls (command_finish k (emit_message ERROR_CODES data st))
      (awaited_by (oks (emit_message ERROR_CODES data st) k))) = Some (Inl (Command e)) \<and>
    data = ''error:'' @ errorCode e \<and>
    (case find (\<lambda>row. row ''Error Code'' = Some (errorCode e)) ERROR_CODES of
       Some row \<Rightarrow> errorMessage e = row ''Error Message'' \<and>
         errorDescription e = row ''Error Description''
     | None \<Rightarrow> errorMessage e = None \<and> errorDescription e = None \<and>
         message e = ''[undefined] undefined (code: '' @ errorCode e @ '')'')"
proof -
  let ?st' = "emit_message ERROR_CODES data st"
  let ?e = "fromCode ERROR_CODES (drop 6 data)"
  from assms(1) have d: "distinct (listeners st)"
    by (auto dest: consistent_run simp: consistent_def)
  from assms(4) have ok: "data \<noteq> ''ok''" by auto
  from assms(4) have data: "data = ''error:'' @ drop 6 data"
    by (auto simp: prefix_def)
  from assms d ok have out: "outcome (oks ?st' k) = Some (Inl (Command ?e))"
    by (simp add: emit_message_promise ok_onmessage_own)
  moreover from assms have "Finish k \<in> set (jobs ?st')"
    by (simp add: emit_message_queues_finish)
  moreover from out have "returned (calls (command_finish k ?st') (awaited_by (oks ?st' k)))
    = Some (Inl (Command ?e))"
    by (simp add: command_finish_returned)
  moreover from data have "data = ''error:'' @ errorCode ?e"
    using fromCode_fields [of ERROR_CODES "drop 6 data"] by simp
  moreover have "case find (\<lambda>row. row ''Error Code'' = Some (errorCode ?e)) ERROR_CODES of
       Some row \<Rightarrow> errorMessage ?e = row ''Error Message'' \<and>
         errorDescription ?e = row ''Error Description''
     | None \<Rightarrow> errorMessage ?e = None \<and> errorDescription ?e = None \<and>
         message ?e = ''[undefined] undefined (code: '' @ errorCode ?e @ '')''"
    using fromCode_fields [of ERROR_CODES "drop 6 data"] by (auto split: option.splits)
  ultimately show ?thesis by blast
qed

theorem error_line_rejects_command_witness:
  "run example_error_codes (boot @ [Submit ''$X'', Idle]) = Some awaiting \<and>
   0 \<in> set (listeners awaiting) \<and> outcome (oks awaiting 0) = None \<and>
   prefix ''error:'' ''error:9'' \<and>
   (\<exists>e. outcome (oks (emit_message example_error_codes ''error:9'' awaiting) 0)
          = Some (Inl (Command e)) \<and>
        errorCode e = ''9'' \<and> errorMessage e = Some ''G-code lock'' \<and>
        errorDescription e = Some ''G-code locked out during alarm or jog state.'')"
proof -
  have h: "0 \<in> set (listeners awaiting)" "outcome (oks awaiting 0) = None"
    "prefix ''error:'' ''error:9''"
    using awaiting_facts by simp_all
  from error_line_rejects_command [OF run_awaiting h]
  obtain e where e:
    "outcome (oks (emit_message example_error_codes ''error:9'' awaiting) 0)
       = Some (Inl (Command e))"
    "''error:9'' = ''error:'' @ errorCode e"
    "case find (\<lambda>row. row ''Error Code'' = Some (errorCode e)) example_error_codes of
       Some row \<Rightarrow> errorMessage e = row ''Error Message'' \<and>
         errorDescription e = row ''Error Description''
     | None \<Rightarrow> errorMessage e = None \<and> errorDescription e = None \<and>
         message e = ''[undefined] undefined (code: '' @ errorCode e @ '')''"
    by blast
  from e(2) have code: "errorCode e = ''9''" by simp
  from e(3) have "errorMessage e = Some ''G-code lock'' \<and>
    errorDescription e = Some ''G-code locked out during alarm or jog state.''"
    unfolding code by (simp add: example_error_codes_def)
  with e(1) code h run_awaiting show ?thesis by blast
qed

text \<open>
  The fields of an unknown code are not empty strings: the catalog has no row for code
  \<open>7\<close>, and the error that \<open>command('$X')\<close> throws on \<open>error:7\<close> has both fields
  undefined.
\<close>

theorem unknown_error_code_counterexample:
  "returned (calls (the (run example_error_codes
      (boot @ [Submit ''$X'', Idle, Chunk (''error:7'' @ DELIMETER), Idle]))) 0)
   = Some (Inl (Command \<lparr>message = ''[undefined] undefined (code: 7)'', errorCode = ''7'',
        errorMessage = None, errorDescription = None\<rparr>))"
  by code_simp

text \<open>
  C6. In every session, while a command is pending (its listener is subscribed and its
  promise is not settled), a message line \<open>ok\<close> resolves it with the lines collected so
  far, a line that begins with \<open>error:\<close> rejects it, and any other line is appended to the
  collected lines while the command stays pending and subscribed. The lines collected so
  far hold no terminal marker, and neither does the result of any resolved command.
\<close>

theorem pending_command_classifies_line:
  assumes "run ERROR_CODES as = Some st" and "k \<in> set (listeners st)"
    and "outcome (oks st k) = None"
  shows "(data = ''ok'' \<longrightarrow>
      outcome (oks (emit_message ERROR_CODES data st) k) = Some (Inr (lines (oks st k))) \<and>
      Finish k \<in> set (jobs (emit_message ERROR_CODES data st))) \<and>
    (prefix ''error:'' data \<longrightarrow>
      outcome (oks (emit_message ERROR_CODES data st) k)
        = Some (Inl (Command (fromCode ERROR_CODES (drop 6 data)))) \<and>
      Finish k \<in> set (jobs (emit_message ERROR_CODES data st))) \<and>
    (data \<noteq> ''ok'' \<and> \<not> prefix ''error:'' data \<longrightarrow>
      outcome (oks (emit_message ERROR_CODES data st) k) = None \<and>
      lines (oks (emit_message ERROR_CODES data st) k) = lines (oks st k) @ [data] \<and>
      k \<in> set (listeners (emit_message ERROR_CODES data st))) \<and>
    (\<forall>l\<in>set (lines (oks st k)). \<not> terminal l) \<and>
    (\<forall>j ls. outcome (oks (emit_message ERROR_CODES data st) j) = Some (Inr ls) \<longrightarrow>
      (\<forall>l\<in>set ls. \<not> terminal l))"
proof -
  from assms(1) have c: "consistent st" by (rule consistent_run)
  then have d: "distinct (listeners st)" by (simp add: consistent_def)
  have p: "oks (emit_message ERROR_CODES data st) k = oks (ok_onmessage ERROR_CODES k data st) k"
    using assms(2) d by (rule emit_message_promise)
  have q: "data = ''ok'' \<or> prefix ''error:'' data \<Longrightarrow>
    Finish k \<in> set (jobs (emit_message ERROR_CODES data st))"
    using assms(2,3) by (rule emit_message_queues_finish)
  have l: "data \<noteq> ''ok'' \<Longrightarrow> k \<in> set (listeners (emit_message ERROR_CODES data st))"
    using assms(2) by (simp add: emit_message_listeners)
  from c have clean: "\<forall>l\<in>set (lines (oks st k)). \<not> terminal l"
    by (simp add: consistent_def)
  from c have "consistent (emit_message ERROR_CODES data st)"
    by (rule consistent_emit_message)
  then have results: "\<forall>j ls. outcome (oks (emit_message ERROR_CODES data st) j) = Some (Inr ls)
    \<longrightarrow> (\<forall>l\<in>set ls. \<not> terminal l)"
    by (simp add: consistent_def)
  have "(data = ''ok'' \<longrightarrow>
      outcome (oks (emit_message ERROR_CODES data st) k) = Some (Inr (lines (oks st k))) \<and>
      Finish k \<in> set (jobs (emit_message ERROR_CODES data st))) \<and>
    (prefix ''error:'' data \<longrightarrow>
      outcome (oks (emit_message ERROR_CODES data st) k)
        = Some (Inl (Command (fromCode ERROR_CODES (drop 6 data)))) \<and>
      Finish k \<in> set (jobs (emit_message ERROR_CODES data st))) \<and>
    (data \<noteq> ''ok'' \<and> \<not> prefix ''error:'' data \<longrightarrow>
      outcome (oks (emit_message ERROR_CODES data st) k) = None \<and>
      lines (oks (emit_message ERROR_CODES data st) k) = lines (oks st k) @ [data] \<and>
      k \<in> set (listeners (emit_message ERROR_CODES data st)))"
    using assms(3) q l unfolding p by (auto simp: ok_onmessage_own)
  with clean results show ?thesis by blast
qed

theorem pending_command_classifies_line_witness:
  "run example_error_codes (boot @ [Submit ''$X'', Idle]) = Some awaiting \<and>
   0 \<in> set (listeners awaiting) \<and> outcome (oks awaiting 0) = None \<and>
   outcome (oks (emit_message example_error_codes ''ok'' awaiting) 0) = Some (Inr []) \<and>
   outcome (oks (emit_message example_error_codes ''error:9'' awaiting) 0)
     = Some (Inl (Command (fromCode example_error_codes ''9''))) \<and>
   lines (oks (emit_message example_error_codes ''[MSG:Caution: Unlocked]'' awaiting) 0)
     = [''[MSG:Caution: Unlocked]'']"
proof -
  have h: "0 \<in> set (listeners awaiting)" "outcome (oks awaiting 0) = None"
    using awaiting_facts by simp_all
  have l: "lines (oks awaiting 0) = []"
    using awaiting_facts by simp
  from pending_command_classifies_line [OF run_awaiting h, of "''ok''"]
  have "outcome (oks (emit_message example_error_codes ''ok'' awaiting) 0) = Some (Inr [])"
    by (simp add: l)
  moreover from pending_command_classifies_line [OF run_awaiting h, of "''error:9''"]
  have "outcome (oks (emit_message example_error_codes ''error:9'' awaiting) 0)
     = Some (Inl (Command (fromCode example_error_codes ''9'')))"
    by simp
  moreover
  from pending_command_classifies_line [OF run_awaiting h, of "''[MSG:Caution: Unlocked]''"]
  have "lines (oks (emit_message example_error_codes ''[MSG:Caution: Unlocked]'' awaiting) 0)
     = [''[MSG:Caution: Unlocked]'']"
    by (simp add: l)
  ultimately show ?thesis using h run_awaiting by blast
qed

subsection \<open>The listener of a rejected command\<close>

text \<open>
  C10, amended. In every session, the \<open>error:\<close> branch does not remove the listener of
  the command it rejects. The listener stays subscribed and keeps receiving the message
  lines that follow (each one that is not an \<open>error:\<close> line is appended to its array)
  until the next line \<open>ok\<close>: on that line it removes itself, as on the success path.
\<close>

theorem rejected_listener_stays_until_ok:
  assumes "run ERROR_CODES as = Some st" and "k \<in> set (listeners st)"
    and "outcome (oks st k) = None" and "prefix ''error:'' data"
    and "''ok'' \<notin> set ms"
  shows "(\<exists>e. outcome (oks (emit_message ERROR_CODES data st) k) = Some (Inl e)) \<and>
    k \<in> set (listeners (fold (emit_message ERROR_CODES) ms (emit_message ERROR_CODES data st))) \<and>
    lines (oks (fold (emit_message ERROR_CODES) ms (emit_message ERROR_CODES data st)) k)
      = lines (oks st k) @ filter (\<lambda>m. \<not> prefix ''error:'' m) ms \<and>
    k \<notin> set (listeners (fold (emit_message ERROR_CODES) (ms @ [''ok''])
      (emit_message ERROR_CODES data st)))"
proof -
  let ?st1 = "emit_message ERROR_CODES data st"
  from assms(1) have d: "distinct (listeners st)"
    by (auto dest: consistent_run simp: consistent_def)
  from assms(4) have ok: "data \<noteq> ''ok''" by auto
  then have ls: "listeners ?st1 = listeners st" by (simp add: emit_message_listeners)
  with assms(2) d have k: "k \<in> set (listeners ?st1)" "distinct (listeners ?st1)"
    by simp_all
  from assms(2-4) d ok have "outcome (oks ?st1 k)
    = Some (Inl (Command (fromCode ERROR_CODES (drop 6 data))))"
    by (simp add: emit_message_promise ok_onmessage_own)
  moreover from assms(2-4) d ok have "lines (oks ?st1 k) = lines (oks st k)"
    by (simp add: emit_message_promise ok_onmessage_own)
  moreover note fold_emit_message_keeps [OF assms(5) k, of ERROR_CODES]
  ultimately show ?thesis using k by (simp add: emit_message_listeners)
qed

theorem rejected_listener_stays_until_ok_witness:
  "run example_error_codes (boot @ [Submit ''$X'', Idle]) = Some awaiting \<and>
   0 \<in> set (listeners awaiting) \<and> outcome (oks awaiting 0) = None \<and>
   prefix ''error:'' ''error:9'' \<and>
   ''ok'' \<notin> set [''[MSG:Reset to continue]'', ''error:1''] \<and>
   0 \<in> set (listeners (fold (emit_message example_error_codes)
      [''[MSG:Reset to continue]'', ''error:1'']
      (emit_message example_error_codes ''error:9'' awaiting))) \<and>
   lines (oks (fold (emit_message example_error_codes)
      [''[MSG:Reset to continue]'', ''error:1'']
      (emit_message example_error_codes ''error:9'' awaiting)) 0)
     = [''[MSG:Reset to continue]''] \<and>
   0 \<notin> set (listeners (fold (emit_message example_error_codes)
      [''[MSG:Reset to continue]'', ''error:1'', ''ok'']
      (emit_message example_error_codes ''error:9'' awaiting)))"
proof -
  have h: "0 \<in> set (listeners awaiting)" "outcome (oks awaiting 0) = None"
    "prefix ''error:'' ''error:9''"
    "''ok'' \<notin> set [''[MSG:Reset to continue]'', ''error:1'']"
    using awaiting_facts by simp_all
  have l: "lines (oks awaiting 0) = []"
    using awaiting_facts by simp
  from rejected_listener_stays_until_ok [OF run_awaiting h] h l run_awaiting show ?thesis
    by simp
qed

text \<open>
  The listener does not stay for the lifetime of the connection. \<open>command('$X')\<close> is
  rejected by \<open>error:9\<close> and its listener stays; \<open>command('?')\<close> follows, and the \<open>ok\<close>
  that ends its response removes both listeners. The first listener has received the status report, and does not receive the
  message that comes after the \<open>ok\<close>.
\<close>

theorem rejected_listener_counterexample:
  "listeners (the (run [] (boot @
      [Submit ''$X'', Idle, Chunk (''error:9'' @ DELIMETER), Idle]))) = [0] \<and>
   listeners (the (run [] (boot @
      [Submit ''$X'', Idle, Chunk (''error:9'' @ DELIMETER), Idle,
       Submit ''?'', Idle, Chunk (idle_report @ DELIMETER @ ''ok'' @ DELIMETER), Idle,
       Chunk (''[MSG:Pgm End]'' @ DELIMETER), Idle]))) = [] \<and>
   lines (oks (the (run [] (boot @
      [Submit ''$X'', Idle, Chunk (''error:9'' @ DELIMETER), Idle,
       Submit ''?'', Idle, Chunk (idle_report @ DELIMETER @ ''ok'' @ DELIMETER), Idle,
       Chunk (''[MSG:Pgm End]'' @ DELIMETER), Idle]))) 0) = [idle_report]"
  by code_simp

subsection \<open>The order of commands\<close>

text \<open>
  With one line after the banner, two commands called before the boot are written in
  order, the second only after the \<open>ok\<close> of the first; and so are all commands of every
  session that goes on from the booted stream (\<open>commands_in_order_once_booted\<close>).
\<close>

lemma commands_in_order_after_unlock_notice:
  "pushed (the (run [] ([Submit ''$H'', Submit ''?'', Idle] @ boot))) = [''$H'' @ [LF]] \<and>
   pushed (the (run [] ([Submit ''$H'', Submit ''?'', Idle] @ boot
      @ [Chunk (''ok'' @ DELIMETER), Idle]))) = [''$H'' @ [LF], ''?'' @ [LF]]"
  by code_simp

text \<open>
  C4. Commands are meant to take the lock first come, first served, so that the second
  of two commands is written only after the response of the first is resolved. The code
  breaks this when two lines follow the banner before the queued callbacks run:
  \<open>onheader\<close> handles both, each of its callbacks calls \<open>release\<close>, and the second
  \<open>release\<close> hands the lock that the first gave to \<open>command('$H')\<close> over to \<open>command('?')\<close>.
  \<open>?\<close> is written; \<open>$H\<close> never is, and its call never returns.
\<close>

theorem second_release_breaks_command_order:
  "pushed (the (run [] [Submit ''$H'', Submit ''?'', Idle,
      Chunk (''Grbl 1.1f'' @ for_help @ DELIMETER @ unlock_notice @ DELIMETER
             @ ''>G54G20:ok'' @ DELIMETER), Idle])) = [''?'' @ [LF]] \<and>
   granted (calls (the (run [] [Submit ''$H'', Submit ''?'', Idle,
      Chunk (''Grbl 1.1f'' @ for_help @ DELIMETER @ unlock_notice @ DELIMETER
             @ ''>G54G20:ok'' @ DELIMETER), Idle])) 0) = False \<and>
   returned (calls (the (run [] [Submit ''$H'', Submit ''?'', Idle,
      Chunk (''Grbl 1.1f'' @ for_help @ DELIMETER @ unlock_notice @ DELIMETER
             @ ''>G54G20:ok'' @ DELIMETER), Idle])) 0) = None \<and>
   lock_queue (the (run [] [Submit ''$H'', Submit ''?'', Idle,
      Chunk (''Grbl 1.1f'' @ for_help @ DELIMETER @ unlock_notice @ DELIMETER
             @ ''>G54G20:ok'' @ DELIMETER), Idle])) = []"
  by code_simp

section \<open>Properties of the response decoders\<close>

subsection \<open>Settings\<close>

text \<open>The matcher of \<open>settings\<close> accepts exactly the lines of the grammar.\<close>

lemma takeWhile_all: "list_all P xs \<Longrightarrow> takeWhile P xs = xs"
  by (induction xs) auto

lemma match_setting_iff: "match_setting line = Some (c, v) \<longleftrightarrow> is_setting_line line c v"
proof
  assume m: "match_setting line = Some (c, v)"
  then obtain r where line: "line = CHR ''$'' # r"
    by (cases line) (auto simp: match_setting_def split: if_splits)
  define r1 where "r1 = dropWhile (\<lambda>x. x \<noteq> CHR ''='') r"
  from m line have c: "c = takeWhile (\<lambda>x. x \<noteq> CHR ''='') r" "c \<noteq> []" "r1 \<noteq> []"
    and v: "v = takeWhile (\<lambda>x. x \<noteq> CHR '' '') (tl r1)"
    by (auto simp: match_setting_def Let_def r1_def split: if_splits)
  from c(3) have "hd r1 = CHR ''=''"
    using hd_dropWhile [of "\<lambda>x. x \<noteq> CHR ''=''" r] by (simp add: r1_def)
  with c(3) have r1: "r1 = CHR ''='' # tl r1" by (cases r1) auto
  define rest where "rest = dropWhile (\<lambda>x. x \<noteq> CHR '' '') (tl r1)"
  have "r = c @ r1" by (simp add: c(1) r1_def)
  moreover have "tl r1 = v @ rest" by (simp add: v rest_def)
  ultimately have "line = ''$'' @ c @ ''='' @ v @ rest"
    using line r1 by (metis append_Cons append_Nil)
  moreover have "CHR ''='' \<notin> set c"
    unfolding c(1) by (auto dest: set_takeWhileD)
  moreover have "CHR '' '' \<notin> set v"
    unfolding v by (auto dest: set_takeWhileD)
  moreover have "rest = [] \<or> hd rest = CHR '' ''"
    using hd_dropWhile [of "\<lambda>x. x \<noteq> CHR '' ''" "tl r1"] by (auto simp: rest_def)
  ultimately show "is_setting_line line c v"
    using c(2) unfolding is_setting_line_def by blast
next
  assume "is_setting_line line c v"
  then obtain rest where line: "line = ''$'' @ c @ ''='' @ v @ rest" and c: "c \<noteq> []"
    and ce: "CHR ''='' \<notin> set c" and vs: "CHR '' '' \<notin> set v"
    and rest: "rest = [] \<or> hd rest = CHR '' ''"
    unfolding is_setting_line_def by blast
  from ce have ca: "list_all (\<lambda>x. x \<noteq> CHR ''='') c" by (auto simp: list_all_iff)
  from vs have va: "list_all (\<lambda>x. x \<noteq> CHR '' '') v" by (auto simp: list_all_iff)
  have t1: "takeWhile (\<lambda>x. x \<noteq> CHR ''='') (c @ CHR ''='' # v @ rest) = c"
    using ca by (rule takeWhile_run) simp
  have d1: "dropWhile (\<lambda>x. x \<noteq> CHR ''='') (c @ CHR ''='' # v @ rest) = CHR ''='' # v @ rest"
    using ca by (rule dropWhile_run) simp
  have t2: "takeWhile (\<lambda>x. x \<noteq> CHR '' '') (v @ rest) = v"
  proof (cases rest)
    case Nil
    with va show ?thesis by (simp add: takeWhile_all)
  next
    case (Cons x xs)
    with rest have "rest = CHR '' '' # xs" by simp
    with takeWhile_run [OF va, of "CHR '' ''" xs] show ?thesis by simp
  qed
  show "match_setting line = Some (c, v)"
    using c by (simp add: line match_setting_def t1 d1 t2)
qed

lemma setting_of_line_match:
  "is_setting_line line c v \<Longrightarrow>
   setting_of_line SETTING_CODES line = Inr (setting_entry_of SETTING_CODES (c, v))"
  by (simp add: match_setting_iff [symmetric] setting_of_line_def setting_entry_of_def Let_def)

lemma setting_of_line_mismatch:
  "\<not> (\<exists>c v. is_setting_line line c v) \<Longrightarrow>
   setting_of_line SETTING_CODES line
     = Inl (Protocol \<lparr>message = ''Expected settings format $x=val'', input = Some line\<rparr>)"
proof -
  assume "\<not> (\<exists>c v. is_setting_line line c v)"
  then have "match_setting line = None"
    by (cases "match_setting line") (auto simp: match_setting_iff)
  then show ?thesis by (simp add: setting_of_line_def new_ProtocolError_def)
qed

lemma map_throw_all:
  "list_all2 (\<lambda>x y. f x = Inr y) xs ys \<Longrightarrow> map_throw f xs = Inr ys"
  by (induction xs ys rule: list_all2_induct) simp_all

lemma map_throw_first:
  "list_all2 (\<lambda>x y. f x = Inr y) xs ys \<Longrightarrow> f bad = Inl e \<Longrightarrow>
   map_throw f (xs @ bad # rest) = Inl e"
  by (induction xs ys rule: list_all2_induct) simp_all

text \<open>
  C7. \<open>settings()\<close> applies the grammar \<open>$<code>=<value>\<close> to every line of the response.
  When every line matches, the result has one entry per line, with the line's code and
  value and the name, units and description of the first catalog row with that code;
  the three are undefined when no row has the code. The first line that does not match
  makes the call fail with a ProtocolError for that line.
\<close>

theorem settings_lines_decoded:
  "(list_all2 (\<lambda>line (c, v). is_setting_line line c v) response pairs \<longrightarrow>
      settings_result SETTING_CODES (Inr response)
        = Inr (map (setting_entry_of SETTING_CODES) pairs)) \<and>
   (list_all2 (\<lambda>line (c, v). is_setting_line line c v) response pairs \<and>
    \<not> (\<exists>c v. is_setting_line bad c v) \<longrightarrow>
      settings_result SETTING_CODES (Inr (response @ bad # rest))
        = Inl (Protocol \<lparr>message = ''Expected settings format $x=val'', input = Some bad\<rparr>)) \<and>
   (find (\<lambda>row. row ''Code'' = Some c) SETTING_CODES = None \<longrightarrow>
      setting (setting_entry_of SETTING_CODES (c, v)) = None \<and>
      units (setting_entry_of SETTING_CODES (c, v)) = None \<and>
      description (setting_entry_of SETTING_CODES (c, v)) = None) \<and>
   (\<forall>row. find (\<lambda>row. row ''Code'' = Some c) SETTING_CODES = Some row \<longrightarrow>
      setting (setting_entry_of SETTING_CODES (c, v)) = row ''Setting'' \<and>
      units (setting_entry_of SETTING_CODES (c, v)) = row ''Units'' \<and>
      description (setting_entry_of SETTING_CODES (c, v)) = row ''Setting Description'')"
proof -
  have all: "list_all2 (\<lambda>line y. setting_of_line SETTING_CODES line = Inr y) response
      (map (setting_entry_of SETTING_CODES) pairs)"
    if "list_all2 (\<lambda>line (c, v). is_setting_line line c v) response pairs"
    using that
    by (induction response pairs rule: list_all2_induct)
       (auto simp: setting_of_line_match)
  show ?thesis
    by (auto simp: settings_result_def map_throw_all [OF all]
        map_throw_first [OF all setting_of_line_mismatch]
        setting_entry_of_def find_row_def)
qed

theorem settings_lines_decoded_witness:
  "list_all2 (\<lambda>line (c, v). is_setting_line line c v) [''$0=10''] [(''0'', ''10'')] \<and>
   \<not> (\<exists>c v. is_setting_line ''$0 10'' c v) \<and>
   find (\<lambda>row. row ''Code'' = Some ''0'') example_setting_codes
     = Some (hd example_setting_codes) \<and>
   find (\<lambda>row. row ''Code'' = Some ''255'') example_setting_codes = None \<and>
   settings_result example_setting_codes (Inr [''$0=10''])
     = Inr [setting_entry_of example_setting_codes (''0'', ''10'')] \<and>
   setting (setting_entry_of example_setting_codes (''0'', ''10'')) = Some ''Step pulse time'' \<and>
   units (setting_entry_of example_setting_codes (''0'', ''10'')) = Some ''microseconds'' \<and>
   settings_result example_setting_codes (Inr [''$0=10'', ''$0 10''])
     = Inl (Protocol \<lparr>message = ''Expected settings format $x=val'', input = Some ''$0 10''\<rparr>) \<and>
   setting (setting_entry_of example_setting_codes (''255'', ''1'')) = None \<and>
   units (setting_entry_of example_setting_codes (''255'', ''1'')) = None \<and>
   description (setting_entry_of example_setting_codes (''255'', ''1'')) = None"
proof -
  have a: "list_all2 (\<lambda>line (c, v). is_setting_line line c v) [''$0=10''] [(''0'', ''10'')]"
    by (simp add: match_setting_iff [symmetric] match_setting_def Let_def)
  have b: "\<not> (\<exists>c v. is_setting_line ''$0 10'' c v)"
    by (simp add: match_setting_iff [symmetric] match_setting_def Let_def)
  have c: "find (\<lambda>row. row ''Code'' = Some ''0'') example_setting_codes
     = Some (hd example_setting_codes)"
    by (simp add: example_setting_codes_def)
  have d: "find (\<lambda>row. row ''Code'' = Some ''255'') example_setting_codes = None"
    by (simp add: example_setting_codes_def)
  have e: "hd example_setting_codes ''Setting'' = Some ''Step pulse time''"
    "hd example_setting_codes ''Units'' = Some ''microseconds''"
    by (simp_all add: example_setting_codes_def)
  note known = settings_lines_decoded [of "[''$0=10'']" "[(''0'', ''10'')]"
      example_setting_codes "''$0 10''" "[]" "''0''" "''10''"]
  note unknown = settings_lines_decoded [of "[''$0=10'']" "[(''0'', ''10'')]"
      example_setting_codes "''$0 10''" "[]" "''255''" "''1''"]
  from known a b c e unknown d show ?thesis
    by simp
qed

subsection \<open>Status\<close>

lemma split_by_nonempty: "split_by sep s \<noteq> []"
  by (induction s) (simp_all add: Let_def)

lemma hd_split_by: "hd (split_by sep s) = takeWhile (\<lambda>c. \<not> sep c) s"
  by (induction s) (simp_all add: Let_def)

lemma at_index_split_by:
  "at_index (split_by (\<lambda>c. c = CHR '':'' \<or> c = CHR '','') segment) 0 = Some (segment_key segment)"
  using split_by_nonempty [of "\<lambda>c. c = CHR '':'' \<or> c = CHR '',''" segment]
  by (simp add: at_index_def hd_conv_nth [symmetric] hd_split_by segment_key_def)

lemma status_segment_unrecognised:
  "segment_key segment \<notin> set recognised \<Longrightarrow> status_segment segment result = result"
  by (simp add: status_segment_def at_index_split_by recognised_def Let_def)

lemma fold_status_segment_filter:
  "fold status_segment (filter (\<lambda>s. segment_key s \<in> set recognised) segments) result
    = fold status_segment segments result"
  by (induction segments arbitrary: result) (simp_all add: status_segment_unrecognised)

lemma idle_report_decoded:
  "status_result (Inr [idle_report]) =
     Inr \<lparr>state = ''Idle'',
          machinePosition = Some (Num 0, Num (3 / 2), Num (- 2)),
          workCoordinateOffset = Some (Num 0, Num 0, Num 0),
          buffer = None, feedAndSpeed = None, pinState = None, overrideValues = None\<rparr>"
  by code_simp

text \<open>
  C8. \<open>status()\<close> decodes the report
  \<open><Idle|MPos:0.000,1.500,-2.000|WCO:0.000,0.000,0.000>\<close> to the state \<open>Idle\<close>, the machine
  position \<open>(0, 1.5, -2)\<close> and the work coordinate offset \<open>(0, 0, 0)\<close>, with every other
  field absent. A segment whose key is none of \<open>MPos\<close>, \<open>WCO\<close>, \<open>Bf\<close>, \<open>FS\<close>, \<open>Pn\<close>, \<open>Ov\<close>
  changes nothing, and a line wrapped in \<open><...>\<close> always decodes: the result is that of
  its recognised segments alone. A last response line that is not wrapped in \<open><...>\<close> is
  a ProtocolError for that line.
\<close>

theorem status_report_decoded:
  "status_result (Inr [idle_report]) =
     Inr \<lparr>state = ''Idle'',
          machinePosition = Some (Num 0, Num (3 / 2), Num (- 2)),
          workCoordinateOffset = Some (Num 0, Num 0, Num 0),
          buffer = None, feedAndSpeed = None, pinState = None, overrideValues = None\<rparr> \<and>
   (segment_key segment \<notin> set recognised \<longrightarrow> status_segment segment result = result) \<and>
   (prefix ''<'' line \<and> suffix ''>'' line \<longrightarrow>
      status_result (Inr (response @ [line])) =
        Inr (fold status_segment
          (filter (\<lambda>s. segment_key s \<in> set recognised)
             (split_by (\<lambda>c. c = CHR ''|'') (take (length line - 2) (drop 1 line))))
          \<lparr>state = takeWhile (\<lambda>c. c \<noteq> CHR ''|'') (take (length line - 2) (drop 1 line)),
           machinePosition = None, workCoordinateOffset = None, buffer = None,
           feedAndSpeed = None, pinState = None, overrideValues = None\<rparr>)) \<and>
   (\<not> (prefix ''<'' line \<and> suffix ''>'' line) \<longrightarrow>
      status_result (Inr (response @ [line])) =
        Inl (Protocol \<lparr>message = ''Expected status format'', input = Some line\<rparr>))"
proof (intro conjI impI)
  show "status_result (Inr [idle_report]) =
     Inr \<lparr>state = ''Idle'',
          machinePosition = Some (Num 0, Num (3 / 2), Num (- 2)),
          workCoordinateOffset = Some (Num 0, Num 0, Num 0),
          buffer = None, feedAndSpeed = None, pinState = None, overrideValues = None\<rparr>"
    by (rule idle_report_decoded)
next
  assume "segment_key segment \<notin> set recognised"
  then show "status_segment segment result = result"
    by (rule status_segment_unrecognised)
next
  assume w: "prefix ''<'' line \<and> suffix ''>'' line"
  then have "line \<noteq> []" by auto
  with w show "status_result (Inr (response @ [line])) =
        Inr (fold status_segment
          (filter (\<lambda>s. segment_key s \<in> set recognised)
             (split_by (\<lambda>c. c = CHR ''|'') (take (length line - 2) (drop 1 line))))
          \<lparr>state = takeWhile (\<lambda>c. c \<noteq> CHR ''|'') (take (length line - 2) (drop 1 line)),
           machinePosition = None, workCoordinateOffset = None, buffer = None,
           feedAndSpeed = None, pinState = None, overrideValues = None\<rparr>)"
    by (simp add: status_result_def status_of_response_def pop_def Let_def
        fold_status_segment_filter hd_split_by)
next
  assume "\<not> (prefix ''<'' line \<and> suffix ''>'' line)"
  then show "status_result (Inr (response @ [line])) =
        Inl (Protocol \<lparr>message = ''Expected status format'', input = Some line\<rparr>)"
    by (auto simp: status_result_def status_of_response_def pop_def status_format_def
        new_ProtocolError_def)
qed

theorem status_report_decoded_witness:
  "segment_key ''Ln:99'' \<notin> set recognised \<and>
   prefix ''<'' ''<Run|Ln:99|Pn:XY>'' \<and> suffix ''>'' ''<Run|Ln:99|Pn:XY>'' \<and>
   \<not> (prefix ''<'' ''Idle|MPos:0.000'' \<and> suffix ''>'' ''Idle|MPos:0.000'') \<and>
   status_segment ''Ln:99'' \<lparr>state = ''Run'', machinePosition = None,
       workCoordinateOffset = None, buffer = None, feedAndSpeed = None, pinState = None,
       overrideValues = None\<rparr>
     = \<lparr>state = ''Run'', machinePosition = None, workCoordinateOffset = None, buffer = None,
        feedAndSpeed = None, pinState = None, overrideValues = None\<rparr> \<and>
   status_result (Inr [''<Run|Ln:99|Pn:XY>''])
     = Inr \<lparr>state = ''Run'', machinePosition = None, workCoordinateOffset = None,
            buffer = None, feedAndSpeed = None, pinState = Some ''XY'',
            overrideValues = None\<rparr> \<and>
   status_result (Inr [''Idle|MPos:0.000''])
     = Inl (Protocol \<lparr>message = ''Expected status format'', input = Some ''Idle|MPos:0.000''\<rparr>)"
proof -
  have a: "segment_key ''Ln:99'' \<notin> set recognised"
    by (simp add: segment_key_def recognised_def)
  have b: "prefix ''<'' ''<Run|Ln:99|Pn:XY>'' \<and> suffix ''>'' ''<Run|Ln:99|Pn:XY>''"
    by code_simp
  have c: "\<not> (prefix ''<'' ''Idle|MPos:0.000'' \<and> suffix ''>'' ''Idle|MPos:0.000'')"
    by simp
  have d: "fold status_segment
      (filter (\<lambda>s. segment_key s \<in> set recognised)
         (split_by (\<lambda>c. c = CHR ''|'') (take (length ''<Run|Ln:99|Pn:XY>'' - 2)
            (drop 1 ''<Run|Ln:99|Pn:XY>''))))
      \<lparr>state = takeWhile (\<lambda>c. c \<noteq> CHR ''|'') (take (length ''<Run|Ln:99|Pn:XY>'' - 2)
            (drop 1 ''<Run|Ln:99|Pn:XY>'')),
       machinePosition = None, workCoordinateOffset = None, buffer = None,
       feedAndSpeed = None, pinState = None, overrideValues = None\<rparr>
    = \<lparr>state = ''Run'', machinePosition = None, workCoordinateOffset = None,
            buffer = None, feedAndSpeed = None, pinState = Some ''XY'',
            overrideValues = None\<rparr>"
    by code_simp
  note wrapped = status_report_decoded [of "''Ln:99''"
      "\<lparr>state = ''Run'', machinePosition = None, workCoordinateOffset = None, buffer = None,
        feedAndSpeed = None, pinState = None, overrideValues = None\<rparr>"
      "''<Run|Ln:99|Pn:XY>''" "[]"]
  note bare = status_report_decoded [of "''Ln:99''"
      "\<lparr>state = ''Run'', machinePosition = None, workCoordinateOffset = None, buffer = None,
        feedAndSpeed = None, pinState = None, overrideValues = None\<rparr>"
      "''Idle|MPos:0.000''" "[]"]
  from wrapped a b have "status_segment ''Ln:99'' \<lparr>state = ''Run'', machinePosition = None,
       workCoordinateOffset = None, buffer = None, feedAndSpeed = None, pinState = None,
       overrideValues = None\<rparr>
     = \<lparr>state = ''Run'', machinePosition = None, workCoordinateOffset = None, buffer = None,
        feedAndSpeed = None, pinState = None, overrideValues = None\<rparr>"
    by blast
  moreover from wrapped b d have "status_result (Inr [''<Run|Ln:99|Pn:XY>''])
     = Inr \<lparr>state = ''Run'', machinePosition = None, workCoordinateOffset = None,
            buffer = None, feedAndSpeed = None, pinState = Some ''XY'',
            overrideValues = None\<rparr>"
    by simp
  moreover from bare c have "status_result (Inr [''Idle|MPos:0.000''])
     = Inl (Protocol \<lparr>message = ''Expected status format'', input = Some ''Idle|MPos:0.000''\<rparr>)"
    by simp
  ultimately show ?thesis using a b c by blast
qed

section \<open>Properties of \<open>position\<close>\<close>















end
